theory Spec2Isabelle
  imports Complex_Main "HOL-Library.Word" "HOL-Library.Multiset"
begin

section \<open>Disk usage analysis: a shallow embedding\<close>

text \<open>
  The development follows \<^verbatim>\<open>internal/disk\<close> (the size formatter, the directory walk
  and the analyzer) and the depth handling of \<^verbatim>\<open>internal/api/handler.go\<close>.
  Go's \<^verbatim>\<open>int64\<close> is a 64-bit word read as two's complement, \<^verbatim>\<open>float64\<close> values are the
  rationals they denote, a nil slice is \<open>None\<close> and a non-nil one \<open>Some\<close> of its elements,
  and a Go \<^verbatim>\<open>error\<close> result is \<open>None\<close> for nil.
\<close>

type_synonym int64 = "64 word"

subsection \<open>The size formatter\<close>

text \<open>
  \<^verbatim>\<open>float64(n)\<close> for an integer \<open>n\<close>: exact below \<open>2^53\<close> in magnitude, otherwise
  rounded to 53 significant bits, ties to the even neighbour. It is the only inexact
  floating-point operation of the formatter: the divisors are powers of two, and the
  fraction times 100 has at most 47 significant bits.
\<close>

function bit_len :: "int \<Rightarrow> nat" where
  "bit_len n = (if n \<le> 0 then 0 else Suc (bit_len (n div 2)))"
  by pat_completeness auto
termination
  by (relation "measure nat") auto

definition float64 :: "int \<Rightarrow> rat" where
  "float64 n =
     (let a = \<bar>n\<bar>; e = bit_len a - 53; q = a div 2 ^ e; r = a mod 2 ^ e in
      if e = 0 then of_int n
      else of_int (sgn n *
             (if 2 ^ (e - 1) < r \<or> (r = 2 ^ (e - 1) \<and> odd q) then q + 1 else q) * 2 ^ e))"

text \<open>\<^verbatim>\<open>int64(f)\<close> and \<^verbatim>\<open>int(f)\<close>: truncation towards zero (the formatter only
  converts values within the range of \<^verbatim>\<open>int64\<close>).\<close>

definition int64_of_float :: "rat \<Rightarrow> int" where
  "int64_of_float f = (if 0 \<le> f then \<lfloor>f\<rfloor> else \<lceil>f\<rceil>)"

text \<open>Go's \<^verbatim>\<open>%\<close> truncates: the remainder has the sign of the dividend.\<close>

definition go_rem :: "int \<Rightarrow> int \<Rightarrow> int" where
  "go_rem a b = sgn a * (\<bar>a\<bar> mod \<bar>b\<bar>)"

text \<open>Negation of an \<^verbatim>\<open>int64\<close> wraps: the smallest value is its own negative.\<close>

definition wrap64 :: "int \<Rightarrow> int" where
  "wrap64 n = (n + 2 ^ 63) mod 2 ^ 64 - 2 ^ 63"

text \<open>The digit loop of \<^verbatim>\<open>intToString\<close>: each round prepends the last digit.\<close>

function digits_loop :: "int \<Rightarrow> string \<Rightarrow> string" where
  "digits_loop n digits =
     (if 0 < n then digits_loop (n div 10) (char_of (48 + n mod 10) # digits) else digits)"
  by pat_completeness auto
termination
  by (relation "measure (\<lambda>(n, digits). nat n)") auto

definition intToString :: "int \<Rightarrow> string" where
  "intToString n =
     (if n = 0 then ''0''
      else let negative = n < 0;
               n1 = (if negative then wrap64 (- n) else n);
               digits = digits_loop n1 []
           in if negative then ''-'' @ digits else digits)"

definition padZero :: "int \<Rightarrow> string" where
  "padZero n = (let s = intToString n in if length s = 1 then ''0'' @ s else s)"

definition floatToString :: "rat \<Rightarrow> string" where
  "floatToString f =
     (let intPart = int64_of_float f;
          fracPart = int64_of_float ((f - float64 intPart) * 100);
          fracPart = (if fracPart < 0 then - fracPart else fracPart);
          result = intToString intPart
      in if 0 < fracPart then result @ ''.'' @ padZero fracPart else result)"

text \<open>
  \<^verbatim>\<open>formatFloat\<close>: a value that is a whole number is rendered as the single character
  \<^verbatim>\<open>rune('0' + int(f)%10)\<close>, followed by an empty string; \<open>48\<close> is \<^verbatim>\<open>'0'\<close>, and the
  character stays within ASCII since the remainder lies between \<open>-9\<close> and \<open>9\<close>.
\<close>

definition formatFloat :: "rat \<Rightarrow> string" where
  "formatFloat f =
     (if f = float64 (int64_of_float f)
      then [char_of (48 + go_rem (int64_of_float f) 10)] @ []
      else floatToString f)"

definition KB :: int where "KB = 1024"
definition MB :: int where "MB = KB * 1024"
definition GB :: int where "GB = MB * 1024"
definition TB :: int where "TB = GB * 1024"

definition FormatSize :: "int64 \<Rightarrow> string" where
  "FormatSize bytes =
     (let b = sint bytes in
      if TB \<le> b then formatFloat (float64 b / float64 TB) @ '' TB''
      else if GB \<le> b then formatFloat (float64 b / float64 GB) @ '' GB''
      else if MB \<le> b then formatFloat (float64 b / float64 MB) @ '' MB''
      else if KB \<le> b then formatFloat (float64 b / float64 KB) @ '' KB''
      else formatFloat (float64 b) @ '' B'')"

subsection \<open>The file tree and the system calls\<close>

text \<open>
  Go errors: \<^verbatim>\<open>*fs.PathError\<close> with its operation, path and cause, and the two
  sentinels of \<^verbatim>\<open>filepath.Walk\<close>.
\<close>

datatype error = PathError string string string | SkipDir | SkipAll

fun err_Error :: "error \<Rightarrow> string" where
  "err_Error (PathError op path err) = op @ '' '' @ path @ '': '' @ err"
| "err_Error SkipDir = ''skip this directory''"
| "err_Error SkipAll = ''skip everything and stop the walk''"

text \<open>
  The file tree as the system calls report it to the process:
  \<^item> \<open>File n\<close>: \<^verbatim>\<open>lstat\<close> succeeds and reports no directory, of size \<open>n\<close>;
  \<^item> \<open>Dir kids\<close>: a directory whose listing succeeds, with its entries in listing order;
  \<^item> \<open>NoList e\<close>: \<^verbatim>\<open>lstat\<close> reports a directory, listing it fails with cause \<open>e\<close>;
  \<^item> \<open>NoStat d e\<close>: \<^verbatim>\<open>lstat\<close> fails with cause \<open>e\<close>; \<open>d\<close> is the type bit that the
    parent's listing gives the entry.
  The tree is finite and holds no cycle: neither \<^verbatim>\<open>filepath.Walk\<close> nor
  \<^verbatim>\<open>os.ReadDir\<close> follows symbolic links.
\<close>

datatype node =
    File int64
  | Dir "(string \<times> node) list"
  | NoList string
  | NoStat bool string

type_synonym DirEntry = "string \<times> node"

text \<open>The path functions of \<^verbatim>\<open>path/filepath\<close> and \<^verbatim>\<open>os\<close> depend on the host system;
  the analyzer is modelled for any choice of them.\<close>

record host =
  Clean :: "string \<Rightarrow> string"
  Join :: "string \<Rightarrow> string \<Rightarrow> string"
  Base :: "string \<Rightarrow> string"

record FileInfo =
  info_Name :: string
  info_Size :: int64
  info_IsDir :: bool

text \<open>The \<^verbatim>\<open>Size()\<close> of a directory is system-dependent and is never read by this
  program; the model reports 0.\<close>

fun stat_node :: "string \<Rightarrow> string \<Rightarrow> string \<Rightarrow> node \<Rightarrow> error + FileInfo" where
  "stat_node op name path (File n) = Inr \<lparr>info_Name = name, info_Size = n, info_IsDir = False\<rparr>"
| "stat_node op name path (Dir kids) = Inr \<lparr>info_Name = name, info_Size = 0, info_IsDir = True\<rparr>"
| "stat_node op name path (NoList e) = Inr \<lparr>info_Name = name, info_Size = 0, info_IsDir = True\<rparr>"
| "stat_node op name path (NoStat d e) = Inl (PathError op path e)"

definition Stat :: "host \<Rightarrow> string \<Rightarrow> node \<Rightarrow> error + FileInfo" where
  "Stat h path nd = stat_node ''stat'' (Base h path) path nd"

definition Lstat :: "host \<Rightarrow> string \<Rightarrow> node \<Rightarrow> error + FileInfo" where
  "Lstat h path nd = stat_node ''lstat'' (Base h path) path nd"

fun ReadDir :: "string \<Rightarrow> node \<Rightarrow> error + DirEntry list" where
  "ReadDir path (Dir kids) = Inr kids"
| "ReadDir path (NoList e) = Inl (PathError ''open'' path e)"
| "ReadDir path (NoStat d e) = Inl (PathError ''open'' path e)"
| "ReadDir path (File n) = Inl (PathError ''readdirent'' path ''not a directory'')"

definition readDirNames :: "string \<Rightarrow> node \<Rightarrow> error + DirEntry list" where
  "readDirNames path nd = ReadDir path nd"

fun entry_Name :: "DirEntry \<Rightarrow> string" where
  "entry_Name (name, nd) = name"

fun entry_IsDir :: "DirEntry \<Rightarrow> bool" where
  "entry_IsDir (name, File n) = False"
| "entry_IsDir (name, Dir kids) = True"
| "entry_IsDir (name, NoList e) = True"
| "entry_IsDir (name, NoStat d e) = d"

fun entry_Info :: "string \<Rightarrow> DirEntry \<Rightarrow> error + FileInfo" where
  "entry_Info path (name, nd) = stat_node ''lstat'' name path nd"

lemma ReadDir_size:
  "ReadDir path nd = Inr entries \<Longrightarrow> entry \<in> set entries \<Longrightarrow> size (snd entry) < size nd"
  by (cases nd; cases entry)
    (auto dest!: size_list_estimation'[where f = "size_prod (\<lambda>_. 0) size"
        and y = "Suc (size (snd entry))"] simp: less_Suc_eq_le)

subsection \<open>\<^verbatim>\<open>filepath.Walk\<close>\<close>

text \<open>
  The callback of a walk may change captured variables: it takes their state \<open>'s\<close> and
  returns it with its error result. \<open>walk\<close> visits a node whose \<^verbatim>\<open>lstat\<close> succeeded,
  \<open>walk_names\<close> is its loop over the names of a listed directory.
\<close>

type_synonym 's WalkFunc =
  "'s \<Rightarrow> string \<Rightarrow> FileInfo option \<Rightarrow> error option \<Rightarrow> error option \<times> 's"

function walk :: "host \<Rightarrow> 's WalkFunc \<Rightarrow> string \<Rightarrow> FileInfo \<Rightarrow> node \<Rightarrow> 's \<Rightarrow> error option \<times> 's"
  and walk_names :: "host \<Rightarrow> 's WalkFunc \<Rightarrow> string \<Rightarrow> DirEntry list \<Rightarrow> 's \<Rightarrow> error option \<times> 's"
where
  "walk h walkFn path info nd s =
     (if \<not> info_IsDir info then walkFn s path (Some info) None
      else case readDirNames path nd of
        Inl err \<Rightarrow> walkFn s path (Some info) (Some err)
      | Inr names \<Rightarrow>
          (case walkFn s path (Some info) None of
             (Some err1, s1) \<Rightarrow> (Some err1, s1)
           | (None, s1) \<Rightarrow> walk_names h walkFn path names s1))"
| "walk_names h walkFn path [] s = (None, s)"
| "walk_names h walkFn path ((name, child) # rest) s =
     (let filename = Join h path name in
      case Lstat h filename child of
        Inl err \<Rightarrow>
          (case walkFn s filename None (Some err) of
             (Some e, s1) \<Rightarrow>
               if e \<noteq> SkipDir then (Some e, s1) else walk_names h walkFn path rest s1
           | (None, s1) \<Rightarrow> walk_names h walkFn path rest s1)
      | Inr fileInfo \<Rightarrow>
          (case walk h walkFn filename fileInfo child s of
             (Some e, s1) \<Rightarrow>
               if \<not> info_IsDir fileInfo \<or> e \<noteq> SkipDir then (Some e, s1)
               else walk_names h walkFn path rest s1
           | (None, s1) \<Rightarrow> walk_names h walkFn path rest s1))"
  by pat_completeness auto
termination
proof (relation "measure (\<lambda>x. case x of
            Inl (h, walkFn, path, info, nd, s) \<Rightarrow> size nd
          | Inr (h, walkFn, path, names, s) \<Rightarrow> size_list (size_prod (\<lambda>_. 0) size) names)",
    goal_cases)
  case (2 h walkFn path info nd s names)
  then show ?case by (cases nd) (auto simp: readDirNames_def)
qed auto

definition Walk :: "host \<Rightarrow> 's WalkFunc \<Rightarrow> string \<Rightarrow> node \<Rightarrow> 's \<Rightarrow> error option \<times> 's" where
  "Walk h walkFn start nd s =
     (let (err, s1) =
            (case Lstat h start nd of
               Inl err \<Rightarrow> walkFn s start None (Some err)
             | Inr info \<Rightarrow> walk h walkFn start info nd s)
      in if err = Some SkipDir \<or> err = Some SkipAll then (None, s1) else (err, s1))"

subsection \<open>\<^verbatim>\<open>GetDirSize\<close>\<close>

text \<open>
  The callback of \<^verbatim>\<open>GetDirSize\<close>, with the captured \<^verbatim>\<open>size\<close> as its state. The walk hands
  it a nil \<^verbatim>\<open>info\<close> only together with an error, which the callback tests first.
\<close>

definition add_size :: "int64 WalkFunc" where
  "add_size sz path info err =
     (if err \<noteq> None then (None, sz)
      else case info of
        None \<Rightarrow> (None, sz)
      | Some i \<Rightarrow> if \<not> info_IsDir i then (None, sz + info_Size i) else (None, sz))"

definition GetDirSize :: "host \<Rightarrow> string \<Rightarrow> node \<Rightarrow> int64 \<times> error option" where
  "GetDirSize h path nd = (let (err, sz) = Walk h add_size path nd 0 in (sz, err))"

subsection \<open>\<^verbatim>\<open>sort.Slice\<close>\<close>

text \<open>
  \<^verbatim>\<open>sort.Slice\<close> sorts a slice of up to 12 elements by insertion: each element in turn
  moves left while it is less than its left neighbour. Longer slices go through
  pattern-defeating quicksort, whose result is ordered by the comparison as well; the model
  sorts by insertion throughout. \<open>move_left\<close> takes the sorted prefix nearest neighbour
  first.
\<close>

fun move_left :: "('a \<Rightarrow> 'a \<Rightarrow> bool) \<Rightarrow> 'a \<Rightarrow> 'a list \<Rightarrow> 'a list" where
  "move_left lt x [] = [x]"
| "move_left lt x (y # ys) = (if lt x y then y # move_left lt x ys else x # y # ys)"

definition sort_Slice :: "('a \<Rightarrow> 'a \<Rightarrow> bool) \<Rightarrow> 'a list \<Rightarrow> 'a list" where
  "sort_Slice lt xs = rev (foldl (\<lambda>pre x. move_left lt x pre) [] xs)"

subsection \<open>The analyzer\<close>

datatype DirInfo =
  DirInfo (Name: string) (Path: string) (Size: int64) (SizeStr: string) (IsDir: bool)
    (Children: "DirInfo list option")

record UsageResult =
  RootPath :: string
  TotalSize :: int64
  TotalStr :: string
  Items :: "DirInfo list option"
  Error :: string

text \<open>The \<open>less\<close> of both sorts: \<^verbatim>\<open>items[i].Size > items[j].Size\<close>, a signed comparison.\<close>

definition larger :: "DirInfo \<Rightarrow> DirInfo \<Rightarrow> bool" where
  "larger a b = (Size b <s Size a)"

function getChildrenInfo :: "host \<Rightarrow> string \<Rightarrow> node \<Rightarrow> int \<Rightarrow> DirInfo list option" where
  "getChildrenInfo h path nd depth =
     (case ReadDir path nd of
        Inl err \<Rightarrow> None
      | Inr entries \<Rightarrow>
          Some (sort_Slice larger
            (map (\<lambda>entry.
               let entryPath = Join h path (entry_Name entry) in
               if entry_IsDir entry then
                 let sz = fst (GetDirSize h entryPath (snd entry));
                     subChildren =
                       (if 1 < depth then getChildrenInfo h entryPath (snd entry) (depth - 1)
                        else None)
                 in DirInfo (entry_Name entry) entryPath sz (FormatSize sz)
                      (entry_IsDir entry) subChildren
               else
                 let sz = (case entry_Info entryPath entry of
                               Inr info \<Rightarrow> info_Size info | Inl err \<Rightarrow> 0)
                 in DirInfo (entry_Name entry) entryPath sz (FormatSize sz)
                      (entry_IsDir entry) None)
             entries)))"
  by pat_completeness auto
termination
  by (relation "measure (\<lambda>(h, path, nd, depth). size nd)") (auto simp: ReadDir_size)

declare getChildrenInfo.simps [simp del]

text \<open>
  One goroutine of \<^verbatim>\<open>AnalyzeDiskUsage\<close>: it sizes its entry and then, holding the
  mutex, appends to \<^verbatim>\<open>items\<close> and adds to \<^verbatim>\<open>totalSize\<close>. The file tree does not change
  during a call, so the shared state \<open>(items, totalSize)\<close> is all that one goroutine
  passes on to the next.
\<close>

definition goroutine ::
  "host \<Rightarrow> string \<Rightarrow> int \<Rightarrow> DirEntry \<Rightarrow> DirInfo list \<times> int64 \<Rightarrow> DirInfo list \<times> int64" where
  "goroutine h rootPath depth e st =
     (let entryPath = Join h rootPath (entry_Name e);
          (sz, children) =
            (if entry_IsDir e then
               (fst (GetDirSize h entryPath (snd e)),
                if 1 < depth then getChildrenInfo h entryPath (snd e) (depth - 1) else None)
             else
               (case entry_Info entryPath e of Inr info \<Rightarrow> info_Size info | Inl err \<Rightarrow> 0,
                None));
          dirInfo = DirInfo (entry_Name e) entryPath sz (FormatSize sz) (entry_IsDir e) children;
          (items, totalSize) = st
      in (items @ [dirInfo], totalSize + sz))"

text \<open>
  The goroutines take the mutex in an order the scheduler chooses. A schedule is a list
  of numbers: each picks, among the goroutines that have not appended yet, the next one
  to do so; when the list runs out the remaining ones follow in the order of the loop.
  Every order of the entries is the outcome of some schedule.
\<close>

fun lock_order :: "nat list \<Rightarrow> 'a list \<Rightarrow> 'a list" where
  "lock_order sched [] = []"
| "lock_order [] (x # xs) = x # xs"
| "lock_order (k # sched) (x # xs) =
     (let i = k mod length (x # xs)
      in (x # xs) ! i # lock_order sched (take i (x # xs) @ drop (Suc i) (x # xs)))"

definition AnalyzeDiskUsage ::
  "host \<Rightarrow> nat list \<Rightarrow> node \<Rightarrow> string \<Rightarrow> int \<Rightarrow> UsageResult \<times> error option" where
  "AnalyzeDiskUsage h sched tree path depth =
     (let rootPath = Clean h path in
      case Stat h rootPath tree of
        Inl err \<Rightarrow>
          (\<lparr>RootPath = rootPath, TotalSize = 0, TotalStr = '''', Items = None,
            Error = err_Error err\<rparr>, Some err)
      | Inr info \<Rightarrow>
          if \<not> info_IsDir info then
            (\<lparr>RootPath = rootPath, TotalSize = info_Size info,
              TotalStr = FormatSize (info_Size info),
              Items = Some [DirInfo (info_Name info) rootPath (info_Size info)
                              (FormatSize (info_Size info)) False None],
              Error = ''''\<rparr>, None)
          else
            (case ReadDir rootPath tree of
               Inl err \<Rightarrow>
                 (\<lparr>RootPath = rootPath, TotalSize = 0, TotalStr = '''', Items = None,
                   Error = err_Error err\<rparr>, Some err)
             | Inr entries \<Rightarrow>
                 let (items, totalSize) =
                       foldl (\<lambda>st e. goroutine h rootPath depth e st) ([], 0)
                         (lock_order sched entries);
                     items = sort_Slice larger items
                 in (\<lparr>RootPath = rootPath, TotalSize = totalSize,
                      TotalStr = FormatSize totalSize, Items = Some items,
                      Error = ''''\<rparr>, None)))"

subsection \<open>The goroutines of \<^verbatim>\<open>AnalyzeDiskUsage\<close>\<close>

text \<open>
  The synchronisation of one call on a directory of \<open>n\<close> entries, as an interleaving
  of events. The main goroutine runs the loop, each round adding 1 to the wait group
  and starting a goroutine (\<open>Launch\<close>; after the last round it reaches \<^verbatim>\<open>wg.Wait()\<close>),
  and returns from \<^verbatim>\<open>wg.Wait()\<close> once the counter is 0 (\<open>Wait\<close>). Goroutine \<open>k\<close>
  \<^item> sends on the semaphore, a channel of capacity 10, which blocks while 10 values are
    buffered (\<open>Acquire k\<close>);
  \<^item> sizes its entry and, under the mutex, appends its \<^verbatim>\<open>DirInfo\<close> (\<open>Append k\<close>);
  \<^item> receives from the semaphore, the deferred call that runs first (\<open>Release k\<close>);
  \<^item> calls \<^verbatim>\<open>wg.Done()\<close>, the deferred call that runs last (\<open>Done k\<close>).
  An event that cannot happen in a state (a blocked send, a wait on a positive counter)
  gives \<open>None\<close>. \<open>appended\<close> records the order in which the goroutines appended.
\<close>

datatype task_pc = Blocked | Sizing | Appended | Released | Finished

datatype main_pc = Launching nat | Waiting | Returned

record run =
  main :: main_pc
  tasks :: "task_pc list"
  semaphore :: nat
  wg :: nat
  appended :: "nat list"

datatype event = Launch | Wait | Acquire nat | Append nat | Release nat | Done nat

definition start :: run where
  "start = \<lparr>main = Launching 0, tasks = [], semaphore = 0, wg = 0, appended = []\<rparr>"

fun fire :: "nat \<Rightarrow> run \<Rightarrow> event \<Rightarrow> run option" where
  "fire n s Launch =
     (case main s of
        Launching i \<Rightarrow>
          if i < n
          then Some (s\<lparr>main := Launching (Suc i), wg := wg s + 1, tasks := tasks s @ [Blocked]\<rparr>)
          else Some (s\<lparr>main := Waiting\<rparr>)
      | _ \<Rightarrow> None)"
| "fire n s Wait =
     (if main s = Waiting \<and> wg s = 0 then Some (s\<lparr>main := Returned\<rparr>) else None)"
| "fire n s (Acquire k) =
     (if k < length (tasks s) \<and> tasks s ! k = Blocked \<and> semaphore s < 10
      then Some (s\<lparr>tasks := (tasks s)[k := Sizing], semaphore := semaphore s + 1\<rparr>)
      else None)"
| "fire n s (Append k) =
     (if k < length (tasks s) \<and> tasks s ! k = Sizing
      then Some (s\<lparr>tasks := (tasks s)[k := Appended], appended := appended s @ [k]\<rparr>)
      else None)"
| "fire n s (Release k) =
     (if k < length (tasks s) \<and> tasks s ! k = Appended \<and> 0 < semaphore s
      then Some (s\<lparr>tasks := (tasks s)[k := Released], semaphore := semaphore s - 1\<rparr>)
      else None)"
| "fire n s (Done k) =
     (if k < length (tasks s) \<and> tasks s ! k = Released \<and> 0 < wg s
      then Some (s\<lparr>tasks := (tasks s)[k := Finished], wg := wg s - 1\<rparr>)
      else None)"

fun exec :: "nat \<Rightarrow> run \<Rightarrow> event list \<Rightarrow> run option" where
  "exec n s [] = Some s"
| "exec n s (e # es) = (case fire n s e of None \<Rightarrow> None | Some s' \<Rightarrow> exec n s' es)"


subsection \<open>The depth parameter of the HTTP handler\<close>

text \<open>
  \<^verbatim>\<open>strconv.Atoi\<close>: an optional sign and at least one decimal digit, nothing else; a
  value outside \<^verbatim>\<open>int\<close> (64 bits) is a range error.
\<close>

datatype NumError = ErrSyntax | ErrRange

definition is_digit :: "char \<Rightarrow> bool" where
  "is_digit c = ((48::nat) \<le> of_char c \<and> of_char c \<le> (57::nat))"

definition digits_value :: "string \<Rightarrow> int" where
  "digits_value ds = foldl (\<lambda>n c. n * 10 + (of_char c - 48)) 0 ds"

definition Atoi :: "string \<Rightarrow> NumError + int" where
  "Atoi s =
     (let neg = (s \<noteq> [] \<and> hd s = CHR ''-'');
          ds = (if s \<noteq> [] \<and> (hd s = CHR ''-'' \<or> hd s = CHR ''+'') then tl s else s)
      in if ds = [] \<or> \<not> list_all is_digit ds then Inl ErrSyntax
         else let n = (if neg then - digits_value ds else digits_value ds)
              in if n < - (2 ^ 63) \<or> 2 ^ 63 - 1 < n then Inl ErrRange else Inr n)"

text \<open>\<^verbatim>\<open>url.Values.Get\<close>: the first value of the key, or the empty string.\<close>

type_synonym Values = "string \<Rightarrow> string list"

definition Get :: "Values \<Rightarrow> string \<Rightarrow> string" where
  "Get v key = (case v key of [] \<Rightarrow> '''' | x # xs \<Rightarrow> x)"

text \<open>
  \<^verbatim>\<open>handleAnalyze\<close> up to its call of the analyzer: the path and depth that it passes,
  or nothing for a request that is not a GET (answered 405 without a call).
\<close>

definition handleAnalyze_args :: "string \<Rightarrow> Values \<Rightarrow> (string \<times> int) option" where
  "handleAnalyze_args method query =
     (if method \<noteq> ''GET'' then None
      else let path = Get query ''path'';
               path = (if path = '''' then ''/'' else path);
               depthStr = Get query ''depth'';
               depth = 1;
               depth = (if depthStr \<noteq> '''' then
                          (case Atoi depthStr of
                             Inr d \<Rightarrow> if 0 < d \<and> d \<le> 5 then d else depth
                           | Inl err \<Rightarrow> depth)
                        else depth)
           in Some (path, depth))"

section \<open>Notions of the specification\<close>

text \<open>The sizes of all files transitively under a node, in the order of a walk.\<close>

fun file_sizes :: "node \<Rightarrow> int64 list"
  and file_sizes_in :: "DirEntry list \<Rightarrow> int64 list" where
  "file_sizes (File n) = [n]"
| "file_sizes (Dir kids) = file_sizes_in kids"
| "file_sizes (NoList e) = []"
| "file_sizes (NoStat d e) = []"
| "file_sizes_in [] = []"
| "file_sizes_in ((name, child) # rest) = file_sizes child @ file_sizes_in rest"

text \<open>The clamp of the specification: a value below the range becomes its lower end,
  a value above it its upper end.\<close>

definition clamp :: "int \<Rightarrow> int \<Rightarrow> int \<Rightarrow> int" where
  "clamp lo hi x = (if x < lo then lo else if hi < x then hi else x)"

text \<open>
  The entry that the analyzer builds for a directory entry, at the top level and below:
  its size is the sum of the files under it, and it is expanded while depth remains.
\<close>

definition entry_item :: "host \<Rightarrow> string \<Rightarrow> int \<Rightarrow> DirEntry \<Rightarrow> DirInfo" where
  "entry_item h dirPath depth e =
     DirInfo (entry_Name e) (Join h dirPath (entry_Name e)) (sum_list (file_sizes (snd e)))
       (FormatSize (sum_list (file_sizes (snd e)))) (entry_IsDir e)
       (if entry_IsDir e \<and> 1 < depth
        then getChildrenInfo h (Join h dirPath (entry_Name e)) (snd e) (depth - 1) else None)"

text \<open>Concrete inputs: a host whose paths are clean as they stand, and a query that
  holds a depth only.\<close>

definition plain_host :: host where
  "plain_host = \<lparr>Clean = (\<lambda>p. p), Join = (\<lambda>dir name. dir @ ''/'' @ name),
     Base = (\<lambda>p. rev (takeWhile (\<lambda>c. c \<noteq> CHR ''/'') (rev p)))\<rparr>"

definition depth_query :: "string \<Rightarrow> Values" where
  "depth_query v = (\<lambda>key. if key = ''depth'' then [v] else [])"

text \<open>
  Properties of a result at every level of nesting: \<open>every_level P items\<close> says that \<open>P\<close>
  holds of the list \<open>items\<close> and of every populated \<^verbatim>\<open>children\<close> list below it.
\<close>

fun below :: "(DirInfo list \<Rightarrow> bool) \<Rightarrow> DirInfo \<Rightarrow> bool" where
  "below P (DirInfo name path sz str isDir children) =
     (case children of None \<Rightarrow> True | Some cs \<Rightarrow> P cs \<and> list_all (below P) cs)"

definition every_level :: "(DirInfo list \<Rightarrow> bool) \<Rightarrow> DirInfo list \<Rightarrow> bool" where
  "every_level P items = (P items \<and> list_all (below P) items)"

text \<open>Each entry is at least as large as the next, in the signed order of \<^verbatim>\<open>int64\<close>.\<close>

fun descending :: "DirInfo list \<Rightarrow> bool" where
  "descending (a # b # rest) = (Size b \<le>s Size a \<and> descending (b # rest))"
| "descending rest = True"

text \<open>Each entry's size string is the formatted size.\<close>

definition strings_agree :: "DirInfo list \<Rightarrow> bool" where
  "strings_agree items = list_all (\<lambda>d. SizeStr d = FormatSize (Size d)) items"

text \<open>A tree for concrete runs: files, nested directories, a directory that cannot be
  listed and an entry that cannot be stat'ed.\<close>

definition sample_tree :: node where
  "sample_tree =
     Dir [(''a'', File 10),
          (''b'', Dir [(''c'', File 2048),
                       (''d'', Dir [(''e'', File 7)]),
                       (''x'', NoList ''permission denied''),
                       (''y'', NoStat False ''no such file or directory'')]),
          (''z'', File 1536)]"

text \<open>
  The entry as a request of depth \<open>k\<close> shows it: the children lists below level \<open>k\<close> are
  left out, nothing else changes.
\<close>

fun cut :: "int \<Rightarrow> DirInfo \<Rightarrow> DirInfo" where
  "cut k (DirInfo name path sz str isDir children) =
     DirInfo name path sz str isDir
       (if k \<le> 1 then None else map_option (map (cut (k - 1))) children)"

text \<open>
  \<open>sized_from entries d\<close>: the entry \<open>d\<close> of a result stands for one of the directory
  entries, with its name and kind, its size is the sum of the sizes of all files under
  that entry, and the same holds of its children with respect to the entry's listing.
\<close>

fun sized_from :: "DirEntry list \<Rightarrow> DirInfo \<Rightarrow> bool" where
  "sized_from entries (DirInfo name path sz str isDir children) =
     list_ex (\<lambda>e. entry_Name e = name \<and> entry_IsDir e = isDir
                 \<and> sz = sum_list (file_sizes (snd e))
                 \<and> (case children of
                       None \<Rightarrow> True
                     | Some cs \<Rightarrow>
                         (case snd e of
                            Dir kids \<Rightarrow> list_all (sized_from kids) cs
                          | _ \<Rightarrow> False)))
       entries"

text \<open>
  A goroutine holds a slot of the semaphore from its send to its receive: while it sizes
  its entry and until its deferred receive has run.
\<close>

definition holding :: "task_pc \<Rightarrow> bool" where
  "holding p = (p = Sizing \<or> p = Appended)"

definition has_appended :: "task_pc \<Rightarrow> bool" where
  "has_appended p = (p = Appended \<or> p = Released \<or> p = Finished)"

definition run_inv :: "nat \<Rightarrow> run \<Rightarrow> bool" where
  "run_inv n s =
     ((case main s of Launching i \<Rightarrow> i = length (tasks s) \<and> i \<le> n | _ \<Rightarrow> length (tasks s) = n)
      \<and> semaphore s = length (filter holding (tasks s))
      \<and> semaphore s \<le> 10
      \<and> wg s = length (filter (\<lambda>p. p \<noteq> Finished) (tasks s))
      \<and> (main s = Returned \<longrightarrow> list_all (\<lambda>p. p = Finished) (tasks s))
      \<and> distinct (appended s)
      \<and> set (appended s) = {k. k < length (tasks s) \<and> has_appended (tasks s ! k)})"

text \<open>Eleven goroutines, ten of them sizing and the eleventh waiting for a slot.\<close>

definition full_house :: run where
  "full_house = \<lparr>main = Waiting,
     tasks = [Sizing, Sizing, Sizing, Sizing, Sizing, Sizing, Sizing, Sizing, Sizing, Sizing, Blocked],
     semaphore = 10, wg = 11, appended = []\<rparr>"

text \<open>
  The two shapes of a rendered number: decimal digits only, or decimal digits, a point
  and exactly two more digits.
\<close>

definition plain_number :: "string \<Rightarrow> bool" where
  "plain_number s = (s \<noteq> [] \<and> list_all is_digit s)"

definition two_place_number :: "string \<Rightarrow> bool" where
  "two_place_number s =
     (3 < length s \<and> plain_number (take (length s - 3) s) \<and> s ! (length s - 3) = CHR ''.''
      \<and> is_digit (s ! (length s - 2)) \<and> is_digit (s ! (length s - 1)))"

section \<open>The walk and the sort\<close>

lemma add_size_err: "fst (add_size s p i e) = None"
  by (simp add: add_size_def split: option.splits)

lemma stat_node_IsDir:
  "stat_node op name path nd = Inr info \<Longrightarrow>
     info_IsDir info = (case nd of File n \<Rightarrow> False | _ \<Rightarrow> True)"
  by (cases nd) auto

lemma stat_node_Size:
  "stat_node op name path (File n) = Inr info \<Longrightarrow> info_Size info = n"
  by auto

lemma walk_add_size:
  "(\<exists>op name p. stat_node op name p nd = Inr info) \<longrightarrow>
     walk h add_size path info nd s = (None, s + sum_list (file_sizes nd))"
  "walk_names h add_size path names s = (None, s + sum_list (file_sizes_in names))"
proof (induct h "add_size :: int64 WalkFunc" path info nd s and h "add_size :: int64 WalkFunc" path names s
    rule: walk_walk_names.induct)
  case (1 h path info nd s)
  show ?case
  proof
    assume "\<exists>op name p. stat_node op name p nd = Inr info"
    then obtain op name p where st: "stat_node op name p nd = Inr info" by blast
    show "walk h add_size path info nd s = (None, s + sum_list (file_sizes nd))"
    proof (cases nd)
      case (File n)
      with st show ?thesis by (auto simp: add_size_def)
    next
      case (Dir kids)
      with st have d: "info_IsDir info" by auto
      have a: "add_size s path (Some info) None = (None, s)"
        using d by (simp add: add_size_def)
      have "walk_names h add_size path kids s = (None, s + sum_list (file_sizes_in kids))"
        using "1"[of kids None s] d Dir a by (simp add: readDirNames_def)
      then show ?thesis using d Dir a by (simp add: readDirNames_def)
    next
      case (NoList e)
      with st have d: "info_IsDir info" by auto
      then show ?thesis using NoList by (simp add: readDirNames_def add_size_def)
    next
      case (NoStat d e)
      with st show ?thesis by simp
    qed
  qed
next
  case (2 h path s)
  then show ?case by simp
next
  case (3 h path name child rest s)
  show ?case
  proof (cases "Lstat h (Join h path name) child")
    case (Inl err)
    then have c: "file_sizes child = []" by (cases child) (auto simp: Lstat_def)
    have a: "add_size s (Join h path name) None (Some err) = (None, s)"
      by (simp add: add_size_def)
    show ?thesis using Inl c a "3"(1)[OF refl Inl, of None s] by simp
  next
    case (Inr fileInfo)
    then have ex: "\<exists>op nm p. stat_node op nm p child = Inr fileInfo"
      unfolding Lstat_def by blast
    have w: "walk h add_size (Join h path name) fileInfo child s
               = (None, s + sum_list (file_sizes child))"
      using "3"(3)[OF refl Inr] ex by blast
    show ?thesis
      using Inr w "3"(4)[OF refl Inr, of None "s + sum_list (file_sizes child)"]
      by (simp add: add.assoc)
  qed
qed

lemma GetDirSize_eq: "GetDirSize h path nd = (sum_list (file_sizes nd), None)"
proof (cases "Lstat h path nd")
  case (Inl err)
  then have c: "file_sizes nd = []" by (cases nd) (auto simp: Lstat_def)
  show ?thesis using Inl c by (simp add: GetDirSize_def Walk_def add_size_def)
next
  case (Inr info)
  then have "\<exists>op nm p. stat_node op nm p nd = Inr info" unfolding Lstat_def by blast
  then have "walk h add_size path info nd 0 = (None, 0 + sum_list (file_sizes nd))"
    using walk_add_size(1) by blast
  then show ?thesis using Inr by (simp add: GetDirSize_def Walk_def)
qed

lemma mset_move_left: "mset (move_left lt x ys) = add_mset x (mset ys)"
  by (induction ys) auto

lemma set_move_left: "set (move_left lt x ys) = insert x (set ys)"
  by (induction ys) auto

lemma mset_foldl_move_left:
  "mset (foldl (\<lambda>pre x. move_left lt x pre) acc xs) = mset acc + mset xs"
  by (induction xs arbitrary: acc) (auto simp: mset_move_left)

lemma mset_sort_Slice: "mset (sort_Slice lt xs) = mset xs"
  by (simp add: sort_Slice_def mset_foldl_move_left)

lemma set_sort_Slice: "set (sort_Slice lt xs) = set xs"
  using mset_sort_Slice[of lt xs] by (metis set_mset_mset)

lemma length_sort_Slice: "length (sort_Slice lt xs) = length xs"
  using mset_sort_Slice[of lt xs] by (metis size_mset)

lemma sorted_move_left:
  fixes key :: "'a \<Rightarrow> int"
  assumes lt: "\<And>a b. lt a b = (key b < key a)"
  shows "sorted_wrt (\<lambda>a b. key a \<le> key b) ys \<Longrightarrow>
         sorted_wrt (\<lambda>a b. key a \<le> key b) (move_left lt x ys)"
  by (induction ys) (auto simp: lt set_move_left)

lemma sorted_foldl_move_left:
  fixes key :: "'a \<Rightarrow> int"
  assumes lt: "\<And>a b. lt a b = (key b < key a)"
  shows "sorted_wrt (\<lambda>a b. key a \<le> key b) acc \<Longrightarrow>
         sorted_wrt (\<lambda>a b. key a \<le> key b) (foldl (\<lambda>pre x. move_left lt x pre) acc xs)"
  by (induction xs arbitrary: acc) (auto simp: sorted_move_left[OF lt])

lemma sorted_sort_Slice:
  fixes key :: "'a \<Rightarrow> int"
  assumes lt: "\<And>a b. lt a b = (key b < key a)"
  shows "sorted_wrt (\<lambda>a b. key b \<le> key a) (sort_Slice lt xs)"
proof -
  have "sorted_wrt (\<lambda>a b. key a \<le> key b) (foldl (\<lambda>pre x. move_left lt x pre) [] xs)"
    by (rule sorted_foldl_move_left[OF lt]) simp
  then show ?thesis by (simp add: sort_Slice_def sorted_wrt_rev)
qed

lemma larger_key: "larger a b = (sint (Size b) < sint (Size a))"
  by (simp add: larger_def word_sless_alt)

lemma sorted_sort_Slice_larger:
  "sorted_wrt (\<lambda>a b. sint (Size b) \<le> sint (Size a)) (sort_Slice larger xs)"
  by (rule sorted_sort_Slice[where key = "\<lambda>d. sint (Size d)"]) (rule larger_key)

lemma move_left_map:
  assumes "\<And>a b. lt (f a) (f b) = lt' a b"
  shows "move_left lt (f x) (map f ys) = map f (move_left lt' x ys)"
  using assms by (induction ys) auto

lemma foldl_move_left_map:
  assumes "\<And>a b. lt (f a) (f b) = lt' a b"
  shows "foldl (\<lambda>pre x. move_left lt x pre) (map f acc) (map f xs)
           = map f (foldl (\<lambda>pre x. move_left lt' x pre) acc xs)"
proof (induction xs arbitrary: acc)
  case Nil
  show ?case by simp
next
  case (Cons x xs)
  have "move_left lt (f x) (map f acc) = map f (move_left lt' x acc)"
    using assms by (rule move_left_map)
  then show ?case using Cons[of "move_left lt' x acc"] by simp
qed

lemma sort_Slice_map:
  assumes "\<And>a b. lt (f a) (f b) = lt' a b"
  shows "sort_Slice lt (map f xs) = map f (sort_Slice lt' xs)"
proof -
  have "foldl (\<lambda>pre x. move_left lt x pre) (map f []) (map f xs)
          = map f (foldl (\<lambda>pre x. move_left lt' x pre) [] xs)"
    using assms by (rule foldl_move_left_map)
  then show ?thesis by (simp add: sort_Slice_def rev_map)
qed

lemma sum_list_sort_Slice:
  fixes f :: "'a \<Rightarrow> int64"
  shows "sum_list (map f (sort_Slice lt xs)) = sum_list (map f xs)"
proof -
  have "mset (map f (sort_Slice lt xs)) = mset (map f xs)"
    by (simp add: mset_sort_Slice)
  then show ?thesis by (metis sum_mset_sum_list)
qed

lemma descending_unique:
  fixes xs ys :: "int list"
  assumes "sorted_wrt (\<lambda>a b. b \<le> a) xs" "sorted_wrt (\<lambda>a b. b \<le> a) ys" "mset xs = mset ys"
  shows "xs = ys"
proof -
  have sx: "sorted (rev xs)" and sy: "sorted (rev ys)"
    using assms(1,2) by (simp_all add: sorted_wrt_rev)
  have "mset (rev xs) = mset (rev ys)" using assms(3) by simp
  then have "rev xs = rev ys"
    using sx sy by (metis properties_for_sort)
  then show ?thesis by simp
qed

lemma sizes_unique:
  assumes "sorted_wrt (\<lambda>a b. sint (Size b) \<le> sint (Size a)) xs"
    and "sorted_wrt (\<lambda>a b. sint (Size b) \<le> sint (Size a)) ys"
    and "mset (map Size xs) = mset (map Size ys)"
  shows "map Size xs = map Size ys"
proof -
  have 1: "sorted_wrt (\<lambda>a b. b \<le> a) (map (\<lambda>d. sint (Size d)) xs)"
    using assms(1) by (simp add: sorted_wrt_map)
  have 2: "sorted_wrt (\<lambda>a b. b \<le> a) (map (\<lambda>d. sint (Size d)) ys)"
    using assms(2) by (simp add: sorted_wrt_map)
  have "mset (map sint (map Size xs)) = mset (map sint (map Size ys))"
    using assms(3) by (metis mset_map)
  then have 3: "mset (map (\<lambda>d. sint (Size d)) xs) = mset (map (\<lambda>d. sint (Size d)) ys)"
    by (simp add: comp_def)
  have "map (\<lambda>d. sint (Size d)) xs = map (\<lambda>d. sint (Size d)) ys"
    by (rule descending_unique[OF 1 2 3])
  then have "map sint (map Size xs) = map sint (map Size ys)" by (simp add: comp_def)
  then show ?thesis
    using inj_map_eq_map[of "sint :: int64 \<Rightarrow> int"] inj_signed[where ?'a = int and ?'b = 64] by blast
qed

lemma mset_remove_nth:
  "i < length l \<Longrightarrow> add_mset (l ! i) (mset (take i l @ drop (Suc i) l)) = mset l"
proof -
  assume "i < length l"
  then have "l = take i l @ l ! i # drop (Suc i) l" by (rule id_take_nth_drop)
  then have "mset l = mset (take i l @ l ! i # drop (Suc i) l)" by simp
  then show ?thesis by simp
qed

lemma mset_lock_order: "mset (lock_order sched xs) = mset xs"
proof (induction sched xs rule: lock_order.induct)
  case (3 k sched x xs)
  define l where "l = x # xs"
  define i where "i = k mod length l"
  have i: "i < length l" by (simp add: i_def l_def)
  have IH: "mset (lock_order sched (take i l @ drop (Suc i) l)) = mset (take i l @ drop (Suc i) l)"
    using 3[OF refl] by (simp add: i_def l_def)
  have "lock_order (k # sched) (x # xs) = l ! i # lock_order sched (take i l @ drop (Suc i) l)"
    by (simp add: i_def l_def Let_def)
  then have "mset (lock_order (k # sched) (x # xs)) = add_mset (l ! i) (mset (take i l @ drop (Suc i) l))"
    using IH by simp
  also have "\<dots> = mset l" using i by (rule mset_remove_nth)
  finally show ?case by (simp add: l_def)
qed simp_all

text \<open>Every order of the entries is the lock order of some schedule.\<close>

lemma lock_order_complete: "mset ys = mset xs \<Longrightarrow> \<exists>sched. lock_order sched xs = ys"
proof (induction ys arbitrary: xs)
  case Nil
  then have "xs = []" by simp
  then show ?case by simp
next
  case (Cons y ys)
  have "y \<in> set xs" using Cons.prems by (metis list.set_intros(1) mset_eq_setD)
  then obtain i where i: "i < length xs" "xs ! i = y" by (auto simp: in_set_conv_nth)
  define rest where "rest = take i xs @ drop (Suc i) xs"
  have "add_mset y (mset rest) = mset xs"
    using mset_remove_nth[OF i(1)] i(2) by (simp add: rest_def)
  moreover have "add_mset y (mset ys) = mset xs" using Cons.prems by simp
  ultimately have "add_mset y (mset ys) = add_mset y (mset rest)" by simp
  then have "mset ys = mset rest" by (simp only: add_mset_add_mset_same_iff)
  then obtain sched where s: "lock_order sched rest = ys" using Cons.IH by blast
  obtain x xs' where x: "xs = x # xs'" using i(1) by (cases xs) auto
  have m: "i mod length (x # xs') = i" using i(1) x by simp
  have "lock_order (i # sched) (x # xs') = (x # xs') ! i # lock_order sched (take i (x # xs') @ drop (Suc i) (x # xs'))"
    by (simp only: lock_order.simps Let_def m)
  then have "lock_order (i # sched) xs = y # ys" using i(2) s by (simp add: x rest_def)
  then show ?case by blast
qed

section \<open>The analyzer, case by case\<close>

lemma file_entry_size:
  "\<not> entry_IsDir e \<Longrightarrow>
     (case entry_Info p e of Inr info \<Rightarrow> info_Size info | Inl err \<Rightarrow> 0) = sum_list (file_sizes (snd e))"
  by (cases e; cases "snd e") auto

lemma goroutine_eq:
  "goroutine h rootPath depth e (items, tot) =
     (items @ [entry_item h rootPath depth e], tot + Size (entry_item h rootPath depth e))"
  by (cases "entry_IsDir e")
    (simp_all add: goroutine_def entry_item_def GetDirSize_eq file_entry_size Let_def)

lemma foldl_goroutine:
  "foldl (\<lambda>st e. goroutine h rootPath depth e st) (items, tot) es =
     (items @ map (entry_item h rootPath depth) es,
      tot + sum_list (map (\<lambda>e. Size (entry_item h rootPath depth e)) es))"
  by (induction es arbitrary: items tot) (simp_all add: goroutine_eq add.assoc)

lemma getChildrenInfo_eq:
  "getChildrenInfo h path nd depth =
     (case ReadDir path nd of
        Inl err \<Rightarrow> None
      | Inr entries \<Rightarrow> Some (sort_Slice larger (map (entry_item h path depth) entries)))"
proof (cases "ReadDir path nd")
  case (Inl err)
  then show ?thesis by (simp add: getChildrenInfo.simps[of h path nd depth])
next
  case (Inr entries)
  have "\<And>entry. (let entryPath = Join h path (entry_Name entry) in
               if entry_IsDir entry then
                 let sz = fst (GetDirSize h entryPath (snd entry));
                     subChildren =
                       (if 1 < depth then getChildrenInfo h entryPath (snd entry) (depth - 1)
                        else None)
                 in DirInfo (entry_Name entry) entryPath sz (FormatSize sz)
                      (entry_IsDir entry) subChildren
               else
                 let sz = (case entry_Info entryPath entry of
                               Inr info \<Rightarrow> info_Size info | Inl err \<Rightarrow> 0)
                 in DirInfo (entry_Name entry) entryPath sz (FormatSize sz)
                      (entry_IsDir entry) None) = entry_item h path depth entry"
    by (simp add: entry_item_def GetDirSize_eq file_entry_size Let_def)
  then show ?thesis using Inr by (simp add: getChildrenInfo.simps[of h path nd depth])
qed

lemma Stat_cases:
  "Stat h p nd = Inl err \<Longrightarrow> \<exists>d e. nd = NoStat d e"
  "Stat h p nd = Inr info \<Longrightarrow> \<not> info_IsDir info \<Longrightarrow> \<exists>n. nd = File n \<and> info_Size info = n"
  by (cases nd; auto simp: Stat_def)+

lemma Analyze_dir:
  assumes "Stat h (Clean h path) tree = Inr info" "info_IsDir info"
    "ReadDir (Clean h path) tree = Inr entries"
  shows "AnalyzeDiskUsage h sched tree path depth =
    (\<lparr>RootPath = Clean h path,
      TotalSize = sum_list (map (\<lambda>e. Size (entry_item h (Clean h path) depth e)) (lock_order sched entries)),
      TotalStr = FormatSize (sum_list (map (\<lambda>e. Size (entry_item h (Clean h path) depth e)) (lock_order sched entries))),
      Items = Some (sort_Slice larger (map (entry_item h (Clean h path) depth) (lock_order sched entries))),
      Error = ''''\<rparr>, None)"
  using assms by (simp add: AnalyzeDiskUsage_def Let_def foldl_goroutine)

lemma Analyze_file:
  assumes "Stat h (Clean h path) tree = Inr info" "\<not> info_IsDir info"
  shows "AnalyzeDiskUsage h sched tree path depth =
    (\<lparr>RootPath = Clean h path, TotalSize = info_Size info, TotalStr = FormatSize (info_Size info),
      Items = Some [DirInfo (info_Name info) (Clean h path) (info_Size info) (FormatSize (info_Size info)) False None],
      Error = ''''\<rparr>, None)"
  using assms by (simp add: AnalyzeDiskUsage_def Let_def)

lemma Analyze_stat_error:
  assumes "Stat h (Clean h path) tree = Inl err"
  shows "AnalyzeDiskUsage h sched tree path depth =
    (\<lparr>RootPath = Clean h path, TotalSize = 0, TotalStr = '''', Items = None, Error = err_Error err\<rparr>, Some err)"
  using assms by (simp add: AnalyzeDiskUsage_def Let_def)

lemma Analyze_list_error:
  assumes "Stat h (Clean h path) tree = Inr info" "info_IsDir info"
    "ReadDir (Clean h path) tree = Inl err"
  shows "AnalyzeDiskUsage h sched tree path depth =
    (\<lparr>RootPath = Clean h path, TotalSize = 0, TotalStr = '''', Items = None, Error = err_Error err\<rparr>, Some err)"
  using assms by (simp add: AnalyzeDiskUsage_def Let_def)

lemma Analyze_success_cases:
  assumes "AnalyzeDiskUsage h sched tree path depth = (r, None)"
  obtains (plain) info where "Stat h (Clean h path) tree = Inr info" "\<not> info_IsDir info"
  | (listed) info entries where "Stat h (Clean h path) tree = Inr info" "info_IsDir info"
      "ReadDir (Clean h path) tree = Inr entries"
proof (cases "Stat h (Clean h path) tree")
  case (Inl err)
  then show ?thesis using assms Analyze_stat_error[OF Inl] by simp
next
  case (Inr info)
  show ?thesis
  proof (cases "info_IsDir info")
    case False
    then show ?thesis using Inr plain by blast
  next
    case True
    show ?thesis
    proof (cases "ReadDir (Clean h path) tree")
      case (Inl err)
      then show ?thesis using assms Analyze_list_error[OF Inr True Inl] by simp
    next
      case (Inr entries)
      then show ?thesis using \<open>Stat h (Clean h path) tree = Inr info\<close> True listed by blast
    qed
  qed
qed

section \<open>Every level of a result\<close>

lemma descending_nth:
  "descending xs = (\<forall>i. Suc i < length xs \<longrightarrow> Size (xs ! Suc i) \<le>s Size (xs ! i))"
proof (induction xs rule: descending.induct)
  case (1 a b rest)
  show ?case
  proof
    assume l: "descending (a # b # rest)"
    show "\<forall>i. Suc i < length (a # b # rest) \<longrightarrow> Size ((a # b # rest) ! Suc i) \<le>s Size ((a # b # rest) ! i)"
    proof (intro allI impI)
      fix i assume "Suc i < length (a # b # rest)"
      then show "Size ((a # b # rest) ! Suc i) \<le>s Size ((a # b # rest) ! i)"
        using l 1 by (cases i) auto
    qed
  next
    assume r: "\<forall>i. Suc i < length (a # b # rest) \<longrightarrow> Size ((a # b # rest) ! Suc i) \<le>s Size ((a # b # rest) ! i)"
    have "Size b \<le>s Size a" using r[rule_format, of 0] by simp
    moreover have "\<forall>i. Suc i < length (b # rest) \<longrightarrow> Size ((b # rest) ! Suc i) \<le>s Size ((b # rest) ! i)"
    proof (intro allI impI)
      fix i assume "Suc i < length (b # rest)"
      then show "Size ((b # rest) ! Suc i) \<le>s Size ((b # rest) ! i)"
        using r[rule_format, of "Suc i"] by simp
    qed
    ultimately show "descending (a # b # rest)" using 1 by simp
  qed
qed simp_all

lemma sorted_wrt_descending:
  "sorted_wrt (\<lambda>a b. sint (Size b) \<le> sint (Size a)) xs \<Longrightarrow> descending xs"
  by (induction xs rule: descending.induct) (auto simp: word_sle_eq)

lemma descending_sort_Slice: "descending (sort_Slice larger xs)"
  by (rule sorted_wrt_descending) (rule sorted_sort_Slice_larger)

lemma strings_agree_sort_Slice:
  "strings_agree (sort_Slice larger (map (entry_item h p d) es))"
  by (simp add: strings_agree_def list_all_iff set_sort_Slice entry_item_def)

lemma getChildrenInfo_every_level:
  assumes P: "\<And>h p d es. P (sort_Slice larger (map (entry_item h p d) es))"
  shows "getChildrenInfo h path nd depth = Some cs \<Longrightarrow> every_level P cs"
proof (induction h path nd depth arbitrary: cs rule: getChildrenInfo.induct)
  case (1 h path nd depth)
  from "1.prems" obtain entries where rd: "ReadDir path nd = Inr entries"
    and cs: "cs = sort_Slice larger (map (entry_item h path depth) entries)"
    by (auto simp: getChildrenInfo_eq split: sum.splits)
  have "below P (entry_item h path depth e)" if e: "e \<in> set entries" for e
  proof (cases "entry_IsDir e \<and> 1 < depth")
    case False
    then show ?thesis by (auto simp: entry_item_def)
  next
    case True
    show ?thesis
    proof (cases "getChildrenInfo h (Join h path (entry_Name e)) (snd e) (depth - 1)")
      case None
      then show ?thesis using True by (simp add: entry_item_def)
    next
      case (Some sub)
      have "every_level P sub"
        using "1.IH"[OF rd e refl _ refl _ Some] True by simp
      then show ?thesis using True Some by (simp add: entry_item_def every_level_def)
    qed
  qed
  then have "list_all (below P) cs"
    by (auto simp: cs list_all_iff set_sort_Slice)
  then show ?case using P by (simp add: cs every_level_def)
qed

lemma below_entry_item:
  assumes P: "\<And>h p d es. P (sort_Slice larger (map (entry_item h p d) es))"
  shows "below P (entry_item h path depth e)"
proof (cases "if entry_IsDir e \<and> 1 < depth
        then getChildrenInfo h (Join h path (entry_Name e)) (snd e) (depth - 1) else None")
  case None
  then show ?thesis by (simp add: entry_item_def)
next
  case (Some sub)
  then have g: "getChildrenInfo h (Join h path (entry_Name e)) (snd e) (depth - 1) = Some sub"
    by (simp split: if_splits)
  have "every_level P sub" using P g by (rule getChildrenInfo_every_level)
  then show ?thesis using Some by (simp add: entry_item_def every_level_def)
qed

lemma Analyze_every_level:
  assumes P: "\<And>h p d es. P (sort_Slice larger (map (entry_item h p d) es))"
    and P1: "\<And>name p n. P [DirInfo name p n (FormatSize n) False None]"
    and ok: "AnalyzeDiskUsage h sched tree path depth = (r, None)"
    and it: "Items r = Some items"
  shows "every_level P items"
  using ok
proof (cases rule: Analyze_success_cases)
  case (plain info)
  have "items = [DirInfo (info_Name info) (Clean h path) (info_Size info) (FormatSize (info_Size info)) False None]"
    using Analyze_file[OF plain, of sched depth] ok it by auto
  then show ?thesis using P1 by (simp add: every_level_def)
next
  case (listed info entries)
  have i: "items = sort_Slice larger (map (entry_item h (Clean h path) depth) (lock_order sched entries))"
    using Analyze_dir[OF listed, of sched depth] ok it by auto
  have "list_all (below P) items"
    using below_entry_item[of P, OF P] by (auto simp: i list_all_iff set_sort_Slice)
  then show ?thesis using P by (simp add: i every_level_def)
qed

section \<open>Sizes and depth\<close>

lemma file_sizes_in_append:
  "file_sizes_in (xs @ ys) = file_sizes_in xs @ file_sizes_in ys"
  by (induction xs) auto

lemma file_sizes_in_sum:
  "sum_list (file_sizes_in es) = sum_list (map (\<lambda>e. sum_list (file_sizes (snd e))) es)"
  by (induction es) auto

lemma Size_entry_item: "Size (entry_item h p d e) = sum_list (file_sizes (snd e))"
  by (simp add: entry_item_def)

lemma sum_list_lock_order:
  fixes f :: "'a \<Rightarrow> int64"
  shows "sum_list (map f (lock_order sched xs)) = sum_list (map f xs)"
proof -
  have "mset (map f (lock_order sched xs)) = mset (map f xs)"
    by (simp add: mset_lock_order)
  then show ?thesis by (metis sum_mset_sum_list)
qed

lemma Analyze_dir_total:
  assumes "Stat h (Clean h path) tree = Inr info" "info_IsDir info"
    "ReadDir (Clean h path) tree = Inr entries"
  shows "TotalSize (fst (AnalyzeDiskUsage h sched tree path depth)) = sum_list (file_sizes tree)"
proof -
  have t: "tree = Dir entries" using assms(3) by (cases tree) auto
  have "TotalSize (fst (AnalyzeDiskUsage h sched tree path depth))
      = sum_list (map (\<lambda>e. sum_list (file_sizes (snd e))) (lock_order sched entries))"
    using Analyze_dir[OF assms, of sched depth] by (simp add: Size_entry_item)
  also have "\<dots> = sum_list (map (\<lambda>e. sum_list (file_sizes (snd e))) entries)"
    by (rule sum_list_lock_order)
  finally show ?thesis by (simp add: t file_sizes_in_sum)
qed

lemma Size_cut: "Size (cut k d) = Size d"
  by (cases d) simp

lemma larger_cut: "larger (cut k a) (cut k b) = larger a b"
  by (simp add: larger_def Size_cut)

lemma cut_no_children: "Children d = None \<Longrightarrow> cut k d = d"
  by (cases d) simp

lemma getChildrenInfo_cut:
  "map_option (map (cut j)) (getChildrenInfo h path nd depth) = getChildrenInfo h path nd (min j depth)"
proof (induction h path nd depth arbitrary: j rule: getChildrenInfo.induct)
  case (1 h path nd depth)
  show ?case
  proof (cases "ReadDir path nd")
    case (Inl err)
    then show ?thesis by (simp add: getChildrenInfo_eq)
  next
    case (Inr entries)
    have item: "cut j (entry_item h path depth e) = entry_item h path (min j depth) e"
      if e: "e \<in> set entries" for e
    proof (cases "entry_IsDir e \<and> 1 < depth \<and> 1 < j")
      case False
      then show ?thesis by (auto simp: entry_item_def)
    next
      case True
      have "map_option (map (cut (j - 1)))
              (getChildrenInfo h (Join h path (entry_Name e)) (snd e) (depth - 1))
            = getChildrenInfo h (Join h path (entry_Name e)) (snd e) (min (j - 1) (depth - 1))"
        using "1.IH"[OF Inr e refl _ refl, of "j - 1"] True by simp
      moreover have "min (j - 1) (depth - 1) = min j depth - 1" by simp
      ultimately show ?thesis using True by (simp add: entry_item_def)
    qed
    have "map (cut j) (sort_Slice larger (map (entry_item h path depth) entries))
            = sort_Slice larger (map (cut j) (map (entry_item h path depth) entries))"
      using larger_cut by (rule sort_Slice_map[symmetric])
    also have "map (cut j) (map (entry_item h path depth) entries)
            = map (entry_item h path (min j depth)) entries"
      using item by simp
    finally show ?thesis using Inr by (simp add: getChildrenInfo_eq)
  qed
qed

lemma cut_entry_item: "cut j (entry_item h path depth e) = entry_item h path (min j depth) e"
proof (cases "entry_IsDir e \<and> 1 < depth \<and> 1 < j")
  case False
  then show ?thesis by (auto simp: entry_item_def)
next
  case True
  have "map_option (map (cut (j - 1)))
          (getChildrenInfo h (Join h path (entry_Name e)) (snd e) (depth - 1))
        = getChildrenInfo h (Join h path (entry_Name e)) (snd e) (min (j - 1) (depth - 1))"
    by (rule getChildrenInfo_cut)
  moreover have "min (j - 1) (depth - 1) = min j depth - 1" by simp
  ultimately show ?thesis using True by (simp add: entry_item_def)
qed

lemma cut_sorted_items:
  "map (cut j) (sort_Slice larger (map (entry_item h path depth) es))
     = sort_Slice larger (map (entry_item h path (min j depth)) es)"
proof -
  have "map (cut j) (sort_Slice larger (map (entry_item h path depth) es))
          = sort_Slice larger (map (cut j) (map (entry_item h path depth) es))"
    using larger_cut by (rule sort_Slice_map[symmetric])
  then show ?thesis by (simp add: cut_entry_item comp_def)
qed

lemma getChildrenInfo_sized_from:
  "getChildrenInfo h path nd depth = Some cs \<Longrightarrow>
     \<exists>kids. nd = Dir kids \<and> list_all (sized_from kids) cs"
proof (induction h path nd depth arbitrary: cs rule: getChildrenInfo.induct)
  case (1 h path nd depth)
  from "1.prems" obtain kids where rd: "ReadDir path nd = Inr kids"
    and cs: "cs = sort_Slice larger (map (entry_item h path depth) kids)"
    by (auto simp: getChildrenInfo_eq split: sum.splits)
  have nd: "nd = Dir kids" using rd by (cases nd) auto
  have "sized_from kids (entry_item h path depth e)" if e: "e \<in> set kids" for e
  proof (cases "if entry_IsDir e \<and> 1 < depth
        then getChildrenInfo h (Join h path (entry_Name e)) (snd e) (depth - 1) else None")
    case None
    then show ?thesis using e by (auto simp: entry_item_def list_ex_iff)
  next
    case (Some sub)
    then have t: "entry_IsDir e" "1 < depth"
      and g: "getChildrenInfo h (Join h path (entry_Name e)) (snd e) (depth - 1) = Some sub"
      by (simp_all split: if_splits)
    obtain kids' where "snd e = Dir kids'" "list_all (sized_from kids') sub"
      using "1.IH"[OF rd e refl t(1) refl t(2) g] by blast
    then show ?thesis using e t g by (auto simp: entry_item_def list_ex_iff)
  qed
  then have "list_all (sized_from kids) cs"
    by (auto simp: cs list_all_iff set_sort_Slice)
  then show ?case using nd by simp
qed

lemma sized_from_entry_item:
  assumes "e \<in> set es"
  shows "sized_from es (entry_item h path depth e)"
proof (cases "if entry_IsDir e \<and> 1 < depth
        then getChildrenInfo h (Join h path (entry_Name e)) (snd e) (depth - 1) else None")
  case None
  then show ?thesis using assms by (auto simp: entry_item_def list_ex_iff)
next
  case (Some sub)
  then have t: "entry_IsDir e" "1 < depth"
    and g: "getChildrenInfo h (Join h path (entry_Name e)) (snd e) (depth - 1) = Some sub"
    by (simp_all split: if_splits)
  obtain kids' where "snd e = Dir kids'" "list_all (sized_from kids') sub"
    using getChildrenInfo_sized_from[OF g] by blast
  then show ?thesis using assms t g by (auto simp: entry_item_def list_ex_iff)
qed

section \<open>The invariant of a run\<close>

lemma filter_update_length:
  assumes "k < length xs"
  shows "length (filter P (xs[k := y])) + (if P (xs ! k) then 1 else 0)
           = length (filter P xs) + (if P y then 1 else 0)"
  using assms
proof (induction xs arbitrary: k)
  case Nil
  then show ?case by simp
next
  case (Cons x xs)
  then show ?case by (cases k) auto
qed

lemma inv_start: "run_inv n start"
  by (simp add: run_inv_def start_def)


lemma count_update:
  assumes "k < length xs" "P (xs ! k) = a" "P y = b"
  shows "length (filter P (xs[k := y])) = length (filter P xs) - (if a then 1 else 0) + (if b then 1 else 0)"
    and "a \<Longrightarrow> 0 < length (filter P xs)"
proof -
  show "a \<Longrightarrow> 0 < length (filter P xs)"
    using assms(1,2) by (auto simp: filter_empty_conv intro!: bexI[of _ "xs ! k"])
  then show "length (filter P (xs[k := y])) = length (filter P xs) - (if a then 1 else 0) + (if b then 1 else 0)"
    using filter_update_length[OF assms(1), of P y] assms(2,3) by auto
qed

lemma appended_update:
  assumes "k < length xs" "has_appended y = has_appended (xs ! k)"
  shows "{j. j < length (xs[k := y]) \<and> has_appended (xs[k := y] ! j)}
           = {j. j < length xs \<and> has_appended (xs ! j)}"
  using assms by (auto simp: nth_list_update)

lemma invD:
  assumes "run_inv n s"
  shows "case main s of Launching i \<Rightarrow> i = length (tasks s) \<and> i \<le> n | _ \<Rightarrow> length (tasks s) = n"
    and "semaphore s = length (filter holding (tasks s))"
    and "semaphore s \<le> 10"
    and "wg s = length (filter (\<lambda>p. p \<noteq> Finished) (tasks s))"
    and "main s = Returned \<longrightarrow> list_all (\<lambda>p. p = Finished) (tasks s)"
    and "distinct (appended s)"
    and "set (appended s) = {k. k < length (tasks s) \<and> has_appended (tasks s ! k)}"
  using assms unfolding run_inv_def by blast+

lemma invI:
  assumes "case main s of Launching i \<Rightarrow> i = length (tasks s) \<and> i \<le> n | _ \<Rightarrow> length (tasks s) = n"
    and "semaphore s = length (filter holding (tasks s))"
    and "semaphore s \<le> 10"
    and "wg s = length (filter (\<lambda>p. p \<noteq> Finished) (tasks s))"
    and "main s = Returned \<longrightarrow> list_all (\<lambda>p. p = Finished) (tasks s)"
    and "distinct (appended s)"
    and "set (appended s) = {k. k < length (tasks s) \<and> has_appended (tasks s ! k)}"
  shows "run_inv n s"
  using assms unfolding run_inv_def by blast

lemma not_Returned:
  assumes "run_inv n s" "k < length (tasks s)" "tasks s ! k \<noteq> Finished"
  shows "main s \<noteq> Returned"
proof
  assume "main s = Returned"
  then have "list_all (\<lambda>p. p = Finished) (tasks s)" using invD(5)[OF assms(1)] by simp
  then show False using assms(2,3) by (simp add: list_all_length)
qed

lemma inv_task_step:
  assumes i: "run_inv n s" and k: "k < length (tasks s)" and old: "tasks s ! k = p" "p \<noteq> Finished"
    and t: "tasks s' = (tasks s)[k := q]" and m: "main s' = main s"
    and sem: "semaphore s' + (if holding p then 1 else 0) = semaphore s + (if holding q then 1 else 0)"
      "semaphore s' \<le> 10"
    and w: "wg s' + (if q = Finished then 1 else 0) = wg s"
    and ap: "appended s' = (if has_appended q \<and> \<not> has_appended p then appended s @ [k] else appended s)"
      "has_appended p \<longrightarrow> has_appended q"
  shows "run_inv n s'"
proof (rule invI)
  show "case main s' of Launching i \<Rightarrow> i = length (tasks s') \<and> i \<le> n | _ \<Rightarrow> length (tasks s') = n"
    using invD(1)[OF i] by (simp add: t m split: main_pc.splits)
  have c: "length (filter holding (tasks s')) + (if holding p then 1 else 0)
             = length (filter holding (tasks s)) + (if holding q then 1 else 0)"
    using filter_update_length[OF k, of holding q] old(1) by (simp add: t)
  show "semaphore s' = length (filter holding (tasks s'))"
    using c sem(1) invD(2)[OF i] by (simp split: if_splits)
  show "semaphore s' \<le> 10" by (rule sem(2))
  have d: "length (filter (\<lambda>p. p \<noteq> Finished) (tasks s')) + 1
             = length (filter (\<lambda>p. p \<noteq> Finished) (tasks s)) + (if q \<noteq> Finished then 1 else 0)"
    using filter_update_length[OF k, of "\<lambda>p. p \<noteq> Finished" q] old by (simp add: t)
  show "wg s' = length (filter (\<lambda>p. p \<noteq> Finished) (tasks s'))"
    using d w invD(4)[OF i] by (simp split: if_splits)
  have "main s \<noteq> Returned" using not_Returned[OF i k] old by simp
  then show "main s' = Returned \<longrightarrow> list_all (\<lambda>p. p = Finished) (tasks s')" by (simp add: m)
  have st: "{j. j < length (tasks s') \<and> has_appended (tasks s' ! j)}
          = (if has_appended q then insert k {j. j < length (tasks s) \<and> has_appended (tasks s ! j)}
             else {j. j < length (tasks s) \<and> has_appended (tasks s ! j)})"
    using k old(1) ap(2) by (auto simp: t nth_list_update)
  have kn: "\<not> has_appended p \<Longrightarrow> k \<notin> set (appended s)"
    using invD(7)[OF i] old(1) by simp
  have kin: "has_appended p \<Longrightarrow> k \<in> set (appended s)"
    using invD(7)[OF i] old(1) k by simp
  show "distinct (appended s')" using invD(6)[OF i] kn by (simp add: ap(1))
  show "set (appended s') = {j. j < length (tasks s') \<and> has_appended (tasks s' ! j)}"
    unfolding st using invD(7)[OF i] kin ap(2) by (auto simp: ap(1))
qed

lemma inv_fire:
  assumes "run_inv n s" and "fire n s e = Some s'"
  shows "run_inv n s'"
proof (cases e)
  case Launch
  show ?thesis
  proof (cases "main s")
    case (Launching i)
    show ?thesis
    proof (cases "i < n")
      case True
      then have s': "s' = s\<lparr>main := Launching (Suc i), wg := wg s + 1, tasks := tasks s @ [Blocked]\<rparr>"
        using assms(2) Launch Launching by simp
      have st: "{k. k < Suc (length (tasks s)) \<and> has_appended ((tasks s @ [Blocked]) ! k)}
              = {k. k < length (tasks s) \<and> has_appended (tasks s ! k)}"
        by (auto simp: nth_append has_appended_def less_Suc_eq)
      show ?thesis
      proof (rule invI)
        show "case main s' of Launching i \<Rightarrow> i = length (tasks s') \<and> i \<le> n | _ \<Rightarrow> length (tasks s') = n"
          using invD(1)[OF assms(1)] Launching True by (simp add: s')
        show "semaphore s' = length (filter holding (tasks s'))"
          using invD(2)[OF assms(1)] by (simp add: s' holding_def)
        show "semaphore s' \<le> 10" using invD(3)[OF assms(1)] by (simp add: s')
        show "wg s' = length (filter (\<lambda>p. p \<noteq> Finished) (tasks s'))"
          using invD(4)[OF assms(1)] by (simp add: s')
        show "main s' = Returned \<longrightarrow> list_all (\<lambda>p. p = Finished) (tasks s')" by (simp add: s')
        show "distinct (appended s')" using invD(6)[OF assms(1)] by (simp add: s')
        show "set (appended s') = {k. k < length (tasks s') \<and> has_appended (tasks s' ! k)}"
          using invD(7)[OF assms(1)] st by (simp add: s')
      qed
    next
      case False
      then have s': "s' = s\<lparr>main := Waiting\<rparr>" using assms(2) Launch Launching by simp
      show ?thesis
      proof (rule invI)
        show "case main s' of Launching i \<Rightarrow> i = length (tasks s') \<and> i \<le> n | _ \<Rightarrow> length (tasks s') = n"
          using invD(1)[OF assms(1)] Launching False by (simp add: s')
      qed (use invD[OF assms(1)] in \<open>simp_all add: s'\<close>)
    qed
  next
    case Waiting
    then show ?thesis using assms(2) Launch by simp
  next
    case Returned
    then show ?thesis using assms(2) Launch by simp
  qed
next
  case Wait
  then have m: "main s = Waiting" and w: "wg s = 0" and s': "s' = s\<lparr>main := Returned\<rparr>"
    using assms(2) by (auto split: if_splits)
  have "length (filter (\<lambda>p. p \<noteq> Finished) (tasks s)) = 0" using invD(4)[OF assms(1)] w by simp
  then have f: "list_all (\<lambda>p. p = Finished) (tasks s)"
    by (auto simp: list_all_iff filter_empty_conv)
  show ?thesis
  proof (rule invI)
    show "case main s' of Launching i \<Rightarrow> i = length (tasks s') \<and> i \<le> n | _ \<Rightarrow> length (tasks s') = n"
      using invD(1)[OF assms(1)] m by (simp add: s')
    show "main s' = Returned \<longrightarrow> list_all (\<lambda>p. p = Finished) (tasks s')" using f by (simp add: s')
  qed (use invD[OF assms(1)] in \<open>simp_all add: s'\<close>)
next
  case (Acquire k)
  then have k: "k < length (tasks s)" "tasks s ! k = Blocked" "semaphore s < 10"
    and s': "s' = s\<lparr>tasks := (tasks s)[k := Sizing], semaphore := semaphore s + 1\<rparr>"
    using assms(2) by (auto split: if_splits)
  show ?thesis
    by (rule inv_task_step[OF assms(1) k(1,2), where q = Sizing and s' = s'])
      (use k(3) in \<open>simp_all add: s' holding_def has_appended_def\<close>)
next
  case (Append k)
  then have k: "k < length (tasks s)" "tasks s ! k = Sizing"
    and s': "s' = s\<lparr>tasks := (tasks s)[k := Appended], appended := appended s @ [k]\<rparr>"
    using assms(2) by (auto split: if_splits)
  show ?thesis
    by (rule inv_task_step[OF assms(1) k(1,2), where q = Appended and s' = s'])
      (use invD(3)[OF assms(1)] in \<open>simp_all add: s' holding_def has_appended_def\<close>)
next
  case (Release k)
  then have k: "k < length (tasks s)" "tasks s ! k = Appended" "0 < semaphore s"
    and s': "s' = s\<lparr>tasks := (tasks s)[k := Released], semaphore := semaphore s - 1\<rparr>"
    using assms(2) by (auto split: if_splits)
  show ?thesis
    by (rule inv_task_step[OF assms(1) k(1,2), where q = Released and s' = s'])
      (use k(3) invD(3)[OF assms(1)] in \<open>simp_all add: s' holding_def has_appended_def\<close>)
next
  case (Done k)
  then have k: "k < length (tasks s)" "tasks s ! k = Released" "0 < wg s"
    and s': "s' = s\<lparr>tasks := (tasks s)[k := Finished], wg := wg s - 1\<rparr>"
    using assms(2) by (auto split: if_splits)
  show ?thesis
    by (rule inv_task_step[OF assms(1) k(1,2), where q = Finished and s' = s'])
      (use k(3) invD(3)[OF assms(1)] in \<open>simp_all add: s' holding_def has_appended_def\<close>)
qed

lemma inv_exec: "run_inv n s \<Longrightarrow> exec n s es = Some s' \<Longrightarrow> run_inv n s'"
proof (induction es arbitrary: s)
  case Nil
  then show ?case by simp
next
  case (Cons e es)
  from Cons.prems(2) obtain s1 where f: "fire n s e = Some s1" and x: "exec n s1 es = Some s'"
    by (auto split: option.splits)
  have "run_inv n s1" using Cons.prems(1) f by (rule inv_fire)
  then show ?case using x by (rule Cons.IH)
qed

section \<open>The shape of a formatted size\<close>

declare bit_len.simps [simp del] digits_loop.simps [simp del]

lemma bit_len_le: "a < 2 ^ k \<Longrightarrow> bit_len a \<le> k"
proof (induction k arbitrary: a)
  case 0
  then show ?case by (simp add: bit_len.simps[of a])
next
  case (Suc k)
  have "a div 2 < 2 ^ k" using Suc.prems by simp
  then have "bit_len (a div 2) \<le> k" by (rule Suc.IH)
  then show ?case by (simp add: bit_len.simps[of a])
qed

lemma bit_len_lower: "0 < a \<Longrightarrow> 2 ^ (bit_len a - 1) \<le> a"
proof (induction a rule: bit_len.induct)
  case (1 n)
  show ?case
  proof (cases "0 < n div 2")
    case False
    then have "bit_len (n div 2) = 0" by (simp add: bit_len.simps[of "n div 2"])
    then show ?thesis using "1.prems" by (simp add: bit_len.simps[of n])
  next
    case True
    then have "2 ^ (bit_len (n div 2) - 1) \<le> n div 2" using "1.IH" "1.prems" by simp
    moreover have "0 < bit_len (n div 2)" using True by (simp add: bit_len.simps[of "n div 2"])
    ultimately have "2 ^ bit_len (n div 2) \<le> 2 * (n div 2)"
      by (cases "bit_len (n div 2)") simp_all
    also have "\<dots> \<le> n" by simp
    finally show ?thesis using "1.prems" by (simp add: bit_len.simps[of n])
  qed
qed

lemma float64_exact: "\<bar>n\<bar> < 2 ^ 53 \<Longrightarrow> float64 n = of_int n"
  using bit_len_le[of "\<bar>n\<bar>" 53] by (simp add: float64_def Let_def)

lemma float64_nonneg_int:
  assumes "0 \<le> n"
  shows "\<exists>m. float64 n = of_int m \<and> 0 \<le> m \<and> m \<le> 2 * n"
proof (cases "bit_len \<bar>n\<bar> - 53 = 0")
  case True
  then show ?thesis using assms by (auto simp: float64_def Let_def)
next
  case False
  define e where "e = bit_len n - 53"
  define q where "q = n div 2 ^ e"
  define r where "r = n mod 2 ^ e"
  define q' where "q' = (if 2 ^ (e - 1) < r \<or> (r = 2 ^ (e - 1) \<and> odd q) then q + 1 else q)"
  have a: "\<bar>n\<bar> = n" using assms by simp
  have e: "0 < e" using False by (simp add: e_def a)
  have n: "0 < n" using e assms by (cases "n = 0") (simp_all add: e_def bit_len.simps[of 0])
  have f: "float64 n = of_int (q' * 2 ^ e)"
    using False n by (simp add: float64_def Let_def a e_def q_def r_def q'_def)
  have "2 ^ e \<le> (2::int) ^ (bit_len n - 1)" by (rule power_increasing) (simp_all add: e_def)
  also have "\<dots> \<le> n" using n by (rule bit_len_lower)
  finally have p: "2 ^ e \<le> n" .
  have q0: "0 \<le> q" using assms by (simp add: q_def pos_imp_zdiv_nonneg_iff)
  have "q' \<le> q + 1" by (simp add: q'_def)
  then have "q' * 2 ^ e \<le> (q + 1) * 2 ^ e" by (simp add: mult_right_mono)
  also have "\<dots> = q * 2 ^ e + 2 ^ e" by (simp add: algebra_simps)
  finally have u: "q' * 2 ^ e \<le> q * 2 ^ e + 2 ^ e" .
  have "0 \<le> n mod 2 ^ e" by simp
  moreover have "n div 2 ^ e * 2 ^ e + n mod 2 ^ e = n" by (rule div_mult_mod_eq)
  ultimately have "q * 2 ^ e \<le> n" unfolding q_def by linarith
  then have "q' * 2 ^ e \<le> 2 * n" using p u by linarith
  moreover have "0 \<le> q' * 2 ^ e" using q0 by (simp add: q'_def)
  ultimately show ?thesis using f by blast
qed

lemma digit_chars: "list_all (\<lambda>d. is_digit (char_of (48 + d))) [0..9]"
  by code_simp

lemma is_digit_char_of:
  fixes d :: int
  assumes "0 \<le> d" "d \<le> 9"
  shows "is_digit (char_of (48 + d))"
proof -
  have "d \<in> set [0..9]" using assms by simp
  then show ?thesis using digit_chars unfolding list_all_iff by blast
qed

lemma is_digit_last_digit: "is_digit (char_of (48 + n mod 10))" for n :: int
  by (rule is_digit_char_of) simp_all

lemma digits_loop_digits:
  "list_all is_digit acc \<Longrightarrow> list_all is_digit (digits_loop n acc)"
proof (induction n acc rule: digits_loop.induct)
  case (1 n digits)
  show ?case
  proof (cases "0 < n")
    case True
    have "list_all is_digit (char_of (48 + n mod 10) # digits)"
      using "1.prems" is_digit_last_digit by simp
    then show ?thesis using "1.IH"[OF True] True by (simp add: digits_loop.simps[of n digits])
  next
    case False
    then show ?thesis using "1.prems" by (simp add: digits_loop.simps[of n digits])
  qed
qed

lemma digits_loop_nonempty: "acc \<noteq> [] \<Longrightarrow> digits_loop n acc \<noteq> []"
proof (induction n acc rule: digits_loop.induct)
  case (1 n digits)
  show ?case
  proof (cases "0 < n")
    case True
    then show ?thesis using "1.IH"[OF True] by (simp add: digits_loop.simps[of n digits])
  next
    case False
    then show ?thesis using "1.prems" by (simp add: digits_loop.simps[of n digits])
  qed
qed

lemma intToString_plain: "0 \<le> n \<Longrightarrow> plain_number (intToString n)"
proof (cases "n = 0")
  case True
  then show ?thesis by (simp add: intToString_def plain_number_def is_digit_def)
next
  case False
  assume "0 \<le> n"
  then have p: "0 < n" using False by simp
  have e: "digits_loop n [] = digits_loop (n div 10) [char_of (48 + n mod 10)]"
    using p by (simp add: digits_loop.simps[of n "[]"])
  have "digits_loop n [] \<noteq> []" unfolding e by (rule digits_loop_nonempty) simp
  moreover have "list_all is_digit (digits_loop n [])" by (rule digits_loop_digits) simp
  ultimately show ?thesis using p by (simp add: intToString_def plain_number_def Let_def)
qed

lemma padZero_two:
  assumes "0 < n" "n < 100"
  shows "\<exists>d1 d2. padZero n = [d1, d2] \<and> is_digit d1 \<and> is_digit d2"
proof (cases "n < 10")
  case True
  then have "n div 10 = 0" using assms by simp
  then have "digits_loop n [] = [char_of (48 + n mod 10)]"
    using assms by (simp add: digits_loop.simps[of n "[]"] digits_loop.simps[of 0])
  then have "padZero n = [CHR ''0'', char_of (48 + n mod 10)]"
    using assms by (simp add: padZero_def intToString_def Let_def)
  moreover have "is_digit CHR ''0''" by (simp add: is_digit_def)
  ultimately show ?thesis using is_digit_last_digit by blast
next
  case False
  then have a: "0 < n div 10" and b: "n div 10 div 10 = 0" using assms by simp_all
  have "digits_loop n [] = digits_loop (n div 10) [char_of (48 + n mod 10)]"
    using assms by (simp add: digits_loop.simps[of n "[]"])
  also have "\<dots> = digits_loop (n div 10 div 10)
      [char_of (48 + n div 10 mod 10), char_of (48 + n mod 10)]"
    using a by (simp add: digits_loop.simps[of "n div 10"])
  also have "\<dots> = [char_of (48 + n div 10 mod 10), char_of (48 + n mod 10)]"
    by (simp add: b digits_loop.simps[of 0])
  finally have "padZero n = [char_of (48 + n div 10 mod 10), char_of (48 + n mod 10)]"
    using assms by (simp add: padZero_def intToString_def Let_def)
  then show ?thesis using is_digit_last_digit by blast
qed

lemma two_place_numberI:
  assumes "plain_number whole" "is_digit d1" "is_digit d2"
  shows "two_place_number (whole @ ''.'' @ [d1, d2])"
proof -
  have "whole \<noteq> []" using assms(1) by (simp add: plain_number_def)
  then have "0 < length whole" by simp
  then show ?thesis using assms by (simp add: two_place_number_def nth_append)
qed

lemma floatToString_shape:
  assumes "0 \<le> f" "f < 2 ^ 53"
  shows "plain_number (floatToString f) \<or> two_place_number (floatToString f)"
proof -
  define ip where "ip = \<lfloor>f\<rfloor>"
  have ip0: "0 \<le> ip" using assms(1) by (simp add: ip_def)
  have "of_int ip \<le> f" by (simp add: ip_def)
  then have "(of_int ip :: rat) < 2 ^ 53" using assms(2) by simp
  then have "(of_int ip :: rat) < of_int (2 ^ 53)" by simp
  then have "ip < 2 ^ 53" by (simp only: of_int_less_iff)
  then have fl: "float64 ip = of_int ip" using ip0 by (intro float64_exact) simp
  define x where "x = (f - of_int ip) * 100"
  have x0: "0 \<le> x" and x1: "x < 100"
    unfolding x_def ip_def by (simp_all add: floor_less_cancel) linarith
  define fp where "fp = \<lfloor>x\<rfloor>"
  have fp0: "0 \<le> fp" using x0 by (simp add: fp_def)
  have fp1: "fp < 100" using x1 by (simp add: fp_def floor_less_iff)
  have i1: "int64_of_float f = ip" using assms(1) by (simp add: int64_of_float_def ip_def)
  have i2: "int64_of_float ((f - float64 ip) * 100) = fp"
    using x0 by (simp add: int64_of_float_def fl x_def fp_def)
  have "floatToString f =
      (if 0 < (if fp < 0 then - fp else fp) then intToString ip @ ''.'' @ padZero (if fp < 0 then - fp else fp)
       else intToString ip)"
    by (simp only: floatToString_def Let_def i1 i2)
  then have fs: "floatToString f = (if 0 < fp then intToString ip @ ''.'' @ padZero fp else intToString ip)"
    using fp0 by simp
  show ?thesis
  proof (cases "0 < fp")
    case False
    then show ?thesis using fs intToString_plain[OF ip0] by simp
  next
    case True
    obtain d1 d2 where "padZero fp = [d1, d2]" "is_digit d1" "is_digit d2"
      using padZero_two[OF True fp1] by blast
    then show ?thesis using fs True two_place_numberI[OF intToString_plain[OF ip0]] by simp
  qed
qed

lemma formatFloat_shape:
  assumes "0 \<le> f" "f < 2 ^ 53"
  shows "plain_number (formatFloat f) \<or> two_place_number (formatFloat f)"
proof (cases "f = float64 (int64_of_float f)")
  case False
  then show ?thesis using floatToString_shape[OF assms] by (simp add: formatFloat_def)
next
  case True
  have ip0: "0 \<le> \<lfloor>f\<rfloor>" using assms(1) by simp
  have "go_rem \<lfloor>f\<rfloor> 10 = \<lfloor>f\<rfloor> mod 10"
  proof (cases "\<lfloor>f\<rfloor> = 0")
    case True
    then show ?thesis by (simp add: go_rem_def)
  next
    case False
    then have "0 < \<lfloor>f\<rfloor>" using ip0 by linarith
    then have "sgn \<lfloor>f\<rfloor> = 1" "\<bar>\<lfloor>f\<rfloor>\<bar> = \<lfloor>f\<rfloor>" by simp_all
    then show ?thesis by (simp add: go_rem_def)
  qed
  then have "formatFloat f = [char_of (48 + \<lfloor>f\<rfloor> mod 10)]"
    using True assms(1) by (simp add: formatFloat_def int64_of_float_def)
  then show ?thesis using is_digit_last_digit by (simp add: plain_number_def)
qed

lemma float64_units:
  "float64 KB = 2 ^ 10" "float64 MB = 2 ^ 20" "float64 GB = 2 ^ 30" "float64 TB = 2 ^ 40"
  by (simp_all add: float64_exact KB_def MB_def GB_def TB_def)

lemma scaled_bounds:
  fixes m :: int and u :: rat
  assumes "0 \<le> m" "1 \<le> u" "rat_of_int m \<le> c * u" "c < 2 ^ 53"
  shows "0 \<le> of_int m / u \<and> of_int m / u < 2 ^ 53"
proof -
  have u: "0 < u" using assms(2) by simp
  have "of_int m / u \<le> c" using assms(3) u by (simp add: pos_divide_le_eq)
  then show ?thesis using assms(1,4) u by simp
qed

lemma FormatSize_shape:
  assumes "0 \<le> sint bytes"
  shows "\<exists>num unit. FormatSize bytes = num @ '' '' @ unit
           \<and> unit \<in> set [''B'', ''KB'', ''MB'', ''GB'', ''TB'']
           \<and> (plain_number num \<or> two_place_number num)"
proof -
  define b where "b = sint bytes"
  have b0: "0 \<le> b" using assms by (simp add: b_def)
  have "sint bytes < 2 ^ (LENGTH(64) - 1)" by (rule sint_lt)
  then have b1: "b < 2 ^ 63" by (simp add: b_def)
  obtain m where m: "float64 b = of_int m" "0 \<le> m" "m \<le> 2 * b"
    using float64_nonneg_int[OF b0] by blast
  have shape: "plain_number (formatFloat (of_int m / u)) \<or> two_place_number (formatFloat (of_int m / u))"
    if "1 \<le> u" "rat_of_int m \<le> c * u" "c < 2 ^ 53" for u c :: rat
    using scaled_bounds[OF m(2) that] formatFloat_shape by blast
  have mr: "rat_of_int m \<le> 2 * of_int b"
    using m(3) by (metis of_int_le_iff of_int_mult of_int_numeral)
  show ?thesis
  proof (cases "TB \<le> b")
    case True
    have "rat_of_int b < 2 ^ 63" using b1 by (metis of_int_less_iff of_int_numeral of_int_power)
    then have "rat_of_int m \<le> 2 ^ 24 * 2 ^ 40" using mr by simp
    then have "plain_number (formatFloat (of_int m / 2 ^ 40)) \<or> two_place_number (formatFloat (of_int m / 2 ^ 40))"
      by (intro shape[where c = "2 ^ 24"]) simp_all
    moreover have "FormatSize bytes = formatFloat (of_int m / 2 ^ 40) @ '' '' @ ''TB''"
      using True by (simp add: FormatSize_def b_def[symmetric] m(1) float64_units)
    ultimately show ?thesis by (intro exI[of _ "formatFloat (of_int m / 2 ^ 40)"] exI[of _ "''TB''"]) simp
  next
    case False
    then have "b < 2 ^ 40" by (simp add: TB_def GB_def MB_def KB_def)
    then have "rat_of_int b < 2 ^ 40" by (metis of_int_less_iff of_int_numeral of_int_power)
    then have small: "rat_of_int m \<le> 2 ^ 41" using mr by simp
    have s: "plain_number (formatFloat (of_int m / u)) \<or> two_place_number (formatFloat (of_int m / u))"
      if "1 \<le> u" for u :: rat
    proof (rule shape[where c = "2 ^ 41", OF that])
      have "(2::rat) ^ 41 * 1 \<le> 2 ^ 41 * u" using that by (intro mult_left_mono) simp_all
      then show "rat_of_int m \<le> 2 ^ 41 * u" using small by simp
    qed simp
    consider (gb) "GB \<le> b" | (mb) "\<not> GB \<le> b" "MB \<le> b" | (kb) "\<not> GB \<le> b" "\<not> MB \<le> b" "KB \<le> b"
      | (bb) "\<not> GB \<le> b" "\<not> MB \<le> b" "\<not> KB \<le> b" by blast
    then show ?thesis
    proof cases
      case gb
      have "FormatSize bytes = formatFloat (of_int m / 2 ^ 30) @ '' '' @ ''GB''"
        using False gb by (simp add: FormatSize_def b_def[symmetric] m(1) float64_units)
      then show ?thesis using s[of "2 ^ 30"]
        by (intro exI[of _ "formatFloat (of_int m / 2 ^ 30)"] exI[of _ "''GB''"]) simp
    next
      case mb
      have "FormatSize bytes = formatFloat (of_int m / 2 ^ 20) @ '' '' @ ''MB''"
        using False mb by (simp add: FormatSize_def b_def[symmetric] m(1) float64_units)
      then show ?thesis using s[of "2 ^ 20"]
        by (intro exI[of _ "formatFloat (of_int m / 2 ^ 20)"] exI[of _ "''MB''"]) simp
    next
      case kb
      have "FormatSize bytes = formatFloat (of_int m / 2 ^ 10) @ '' '' @ ''KB''"
        using False kb by (simp add: FormatSize_def b_def[symmetric] m(1) float64_units)
      then show ?thesis using s[of "2 ^ 10"]
        by (intro exI[of _ "formatFloat (of_int m / 2 ^ 10)"] exI[of _ "''KB''"]) simp
    next
      case bb
      have "FormatSize bytes = formatFloat (of_int m / 1) @ '' '' @ ''B''"
        using False bb by (simp add: FormatSize_def b_def[symmetric] m(1))
      then show ?thesis using s[of 1]
        by (intro exI[of _ "formatFloat (of_int m / 1)"] exI[of _ "''B''"]) simp
    qed
  qed
qed

lemma err_Error_nonempty: "err_Error e \<noteq> ''''"
  by (cases e) auto

lemma Atoi_empty: "Atoi '''' = Inl ErrSyntax"
  by (simp add: Atoi_def)

section \<open>The claims\<close>

text \<open>
  C4 (confirmed). When the root path cannot be stat'ed, or is a directory that cannot be
  listed, the analyzer returns the error of the failing call and a result that holds the
  cleaned root path, that error's message, which is not empty, no items, a zero total
  and nothing else.
\<close>

theorem Analyze_root_error:
  assumes "Stat h (Clean h path) tree = Inl err
     \<or> (\<exists>info. Stat h (Clean h path) tree = Inr info \<and> info_IsDir info
           \<and> ReadDir (Clean h path) tree = Inl err)"
  shows "AnalyzeDiskUsage h sched tree path depth =
           (\<lparr>RootPath = Clean h path, TotalSize = 0, TotalStr = '''', Items = None,
             Error = err_Error err\<rparr>, Some err)
         \<and> err_Error err \<noteq> ''''"
  using assms Analyze_stat_error Analyze_list_error err_Error_nonempty by blast

theorem Analyze_root_error_witness:
  "Stat plain_host (Clean plain_host ''/definitely/does/not/exist'')
       (NoStat False ''no such file or directory'')
     = Inl (PathError ''stat'' ''/definitely/does/not/exist'' ''no such file or directory'')
   \<and> AnalyzeDiskUsage plain_host [] (NoStat False ''no such file or directory'')
         ''/definitely/does/not/exist'' 1
     = (\<lparr>RootPath = ''/definitely/does/not/exist'', TotalSize = 0, TotalStr = '''', Items = None,
         Error = ''stat /definitely/does/not/exist: no such file or directory''\<rparr>,
        Some (PathError ''stat'' ''/definitely/does/not/exist'' ''no such file or directory''))"
proof -
  have a: "Stat plain_host (Clean plain_host ''/definitely/does/not/exist'')
       (NoStat False ''no such file or directory'')
     = Inl (PathError ''stat'' ''/definitely/does/not/exist'' ''no such file or directory'')"
    by (simp add: Stat_def plain_host_def)
  from Analyze_root_error[OF disjI1, OF a, of "[]" 1] a show ?thesis
    by (simp add: plain_host_def)
qed

text \<open>
  C6 (corrected). The formatter renders 0 as "0 B", 1024 as "1 KB" and 1073741824 as
  "1 GB"; it renders 1536 as "1.50 KB". For every byte count that is not negative the
  result is a number, a space and one of the units B, KB, MB, GB, TB, where the number
  is written in decimal digits, either without a fraction or with a point and exactly
  two fractional digits.
\<close>

theorem FormatSize_examples:
  "FormatSize 0 = ''0 B'' \<and> FormatSize 1024 = ''1 KB'' \<and> FormatSize 1536 = ''1.50 KB''
   \<and> FormatSize 1073741824 = ''1 GB''
   \<and> (0 \<le> sint bytes \<longrightarrow>
        (\<exists>num unit. FormatSize bytes = num @ '' '' @ unit
           \<and> unit \<in> set [''B'', ''KB'', ''MB'', ''GB'', ''TB'']
           \<and> (plain_number num \<or> two_place_number num)))"
proof -
  have "FormatSize 0 = ''0 B'' \<and> FormatSize 1024 = ''1 KB'' \<and> FormatSize 1536 = ''1.50 KB''
     \<and> FormatSize 1073741824 = ''1 GB''"
    by code_simp
  then show ?thesis using FormatSize_shape by blast
qed

theorem FormatSize_examples_witness:
  "0 \<le> sint (1234567890 :: int64) \<and> FormatSize 1234567890 = ''1.14'' @ '' '' @ ''GB''
   \<and> two_place_number ''1.14'' \<and> FormatSize 1536 = ''1.50 KB''"
proof -
  have a: "0 \<le> sint (1234567890 :: int64)" by simp
  have b: "FormatSize 1234567890 = ''1.14'' @ '' '' @ ''GB''" by code_simp
  have c: "two_place_number ''1.14''" by code_simp
  from FormatSize_examples[of 1234567890] a b c show ?thesis by blast
qed

text \<open>The claim as stated, with "1.5 KB" for 1536, fails.\<close>

theorem FormatSize_1536_counterexample:
  "\<not> (FormatSize 0 = ''0 B'' \<and> FormatSize 1024 = ''1 KB'' \<and> FormatSize 1536 = ''1.5 KB''
     \<and> FormatSize 1073741824 = ''1 GB'')"
  by code_simp

text \<open>
  C7 (the code departs from the claim). A value that is a whole number at its unit is
  rendered by its last decimal digit alone: 10 * 1024 bytes read "0 KB", not "10 KB".
\<close>

theorem FormatSize_whole_number_last_digit:
  "FormatSize (10 * 1024) = ''0 KB'' \<and> FormatSize (100 * 1048576) = ''0 MB''
     \<and> FormatSize 10 = ''0 B'' \<and> FormatSize (12 * 1024) = ''2 KB''"
  by code_simp

text \<open>
  C8 (corrected). Whenever the handler calls the analyzer, the depth it passes lies
  between 1 and 5: it is the supplied depth when that parses as a number from 1 to 5,
  and 1 in every other case (no depth, no number, a number below 1 or above 5).
\<close>

theorem handleAnalyze_depth:
  assumes "handleAnalyze_args method query = Some (path, depth)"
  shows "1 \<le> depth \<and> depth \<le> 5 \<and>
    depth = (case Atoi (Get query ''depth'') of
               Inr d \<Rightarrow> if 1 \<le> d \<and> d \<le> 5 then d else 1
             | Inl err \<Rightarrow> 1)"
proof (cases "Get query ''depth'' = ''''")
  case True
  then show ?thesis using assms
    by (auto simp: handleAnalyze_args_def Let_def Atoi_empty split: if_splits)
next
  case False
  then show ?thesis using assms
    by (auto simp: handleAnalyze_args_def Let_def split: if_splits sum.splits)
qed

theorem handleAnalyze_depth_witness:
  "handleAnalyze_args ''GET'' (depth_query ''7'') = Some (''/'', 1) \<and> Atoi ''7'' = Inr 7
     \<and> handleAnalyze_args ''GET'' (depth_query ''4'') = Some (''/'', 4)"
proof -
  have a: "handleAnalyze_args ''GET'' (depth_query ''7'') = Some (''/'', 1)" by code_simp
  have b: "handleAnalyze_args ''GET'' (depth_query ''4'') = Some (''/'', 4)" by code_simp
  have c: "Atoi ''7'' = Inr 7" by code_simp
  from handleAnalyze_depth[OF a] handleAnalyze_depth[OF b] a b c show ?thesis by simp
qed

text \<open>The claim as stated fails: a depth of 7 is not clamped to 5, the handler
  passes 1.\<close>

theorem handleAnalyze_depth_counterexample:
  "handleAnalyze_args ''GET'' (depth_query ''7'') = Some (''/'', 1) \<and> clamp 1 5 7 = 5"
  by code_simp

text \<open>
  C1 (confirmed). In every successful result the total is the sum of the sizes of the
  items, and for a directory the items are one per entry of its listing.
\<close>

theorem Analyze_total_is_sum:
  assumes "AnalyzeDiskUsage h sched tree path depth = (r, None)"
  shows "\<exists>items. Items r = Some items \<and> TotalSize r = sum_list (map Size items) \<and>
           (\<forall>entries. ReadDir (Clean h path) tree = Inr entries \<longrightarrow>
              mset (map Name items) = mset (map entry_Name entries))"
  using assms
proof (cases rule: Analyze_success_cases)
  case (plain info)
  obtain n where "tree = File n" using Stat_cases(2)[OF plain] by blast
  then show ?thesis using Analyze_file[OF plain, of sched depth] assms by auto
next
  case (listed info entries)
  let ?xs = "map (entry_item h (Clean h path) depth) (lock_order sched entries)"
  have r: "Items r = Some (sort_Slice larger ?xs)" "TotalSize r = sum_list (map Size ?xs)"
    using Analyze_dir[OF listed, of sched depth] assms by (auto simp: comp_def)
  have s: "sum_list (map Size (sort_Slice larger ?xs)) = sum_list (map Size ?xs)"
    by (rule sum_list_sort_Slice)
  have "mset (map Name (sort_Slice larger ?xs)) = image_mset Name (mset ?xs)"
    by (simp add: mset_sort_Slice)
  also have "\<dots> = image_mset (\<lambda>e. Name (entry_item h (Clean h path) depth e)) (mset (lock_order sched entries))"
    by (simp add: multiset.map_comp comp_def)
  also have "\<dots> = mset (map entry_Name entries)"
    by (simp add: mset_lock_order entry_item_def)
  finally show ?thesis using r s listed by simp
qed

theorem Analyze_total_is_sum_witness:
  "AnalyzeDiskUsage plain_host [2, 0] sample_tree ''/r'' 2 =
     (\<lparr>RootPath = ''/r'', TotalSize = 3601, TotalStr = ''3.51 KB'',
       Items = Some
        [DirInfo ''b'' ''/r/b'' 2055 ''2 KB'' True
          (Some
            [DirInfo ''c'' ''/r/b/c'' 2048 ''2 KB'' False None,
             DirInfo ''d'' ''/r/b/d'' 7 ''7 B'' True None,
             DirInfo ''x'' ''/r/b/x'' 0 ''0 B'' True None,
             DirInfo ''y'' ''/r/b/y'' 0 ''0 B'' False None]),
         DirInfo ''z'' ''/r/z'' 1536 ''1.50 KB'' False None,
         DirInfo ''a'' ''/r/a'' 10 ''0 B'' False None],
       Error = ''''\<rparr>, None)
   \<and> (3601 :: int64) = 2055 + 1536 + 10"
proof -
  have a: "AnalyzeDiskUsage plain_host [2, 0] sample_tree ''/r'' 2 =
     (\<lparr>RootPath = ''/r'', TotalSize = 3601, TotalStr = ''3.51 KB'',
       Items = Some
        [DirInfo ''b'' ''/r/b'' 2055 ''2 KB'' True
          (Some
            [DirInfo ''c'' ''/r/b/c'' 2048 ''2 KB'' False None,
             DirInfo ''d'' ''/r/b/d'' 7 ''7 B'' True None,
             DirInfo ''x'' ''/r/b/x'' 0 ''0 B'' True None,
             DirInfo ''y'' ''/r/b/y'' 0 ''0 B'' False None]),
         DirInfo ''z'' ''/r/z'' 1536 ''1.50 KB'' False None,
         DirInfo ''a'' ''/r/a'' 10 ''0 B'' False None],
       Error = ''''\<rparr>, None)"
    by code_simp
  from Analyze_total_is_sum[OF a] a show ?thesis by simp
qed

text \<open>
  C3 (confirmed). In every successful result each item is at least as large as the
  next one, and so is each entry of every populated children list, at every level.
\<close>

theorem Analyze_sorted_every_level:
  assumes "AnalyzeDiskUsage h sched tree path depth = (r, None)" and "Items r = Some items"
  shows "(\<forall>i. Suc i < length items \<longrightarrow> Size (items ! Suc i) \<le>s Size (items ! i))
         \<and> every_level descending items"
proof -
  have "every_level descending items"
    using _ _ assms
  proof (rule Analyze_every_level)
    show "descending (sort_Slice larger (map (entry_item h p d) es))" for h p d es
      by (rule descending_sort_Slice)
    show "descending [DirInfo name p n (FormatSize n) False None]" for name p n by simp
  qed
  moreover from this have "descending items" by (simp add: every_level_def)
  ultimately show ?thesis by (simp add: descending_nth)
qed

theorem Analyze_sorted_every_level_witness:
  "snd (AnalyzeDiskUsage plain_host [1] sample_tree ''/r'' 3) = None
   \<and> every_level descending (the (Items (fst (AnalyzeDiskUsage plain_host [1] sample_tree ''/r'' 3))))
   \<and> map Size (the (Items (fst (AnalyzeDiskUsage plain_host [1] sample_tree ''/r'' 3))))
       = [2055, 1536, 10]"
proof -
  let ?A = "AnalyzeDiskUsage plain_host [1] sample_tree ''/r'' 3"
  have n: "snd ?A = None" by code_simp
  have i: "Items (fst ?A) = Some (the (Items (fst ?A)))" by code_simp
  have m: "map Size (the (Items (fst ?A))) = [2055, 1536, 10]" by code_simp
  have a: "?A = (fst ?A, None)" using n by (simp add: prod_eq_iff)
  from Analyze_sorted_every_level[OF a i] n m show ?thesis by simp
qed

text \<open>
  C10 (corrected). In every successful result the total string is the formatted total,
  and at every level each entry's size string is its formatted size.
\<close>

theorem Analyze_strings_agree:
  assumes "AnalyzeDiskUsage h sched tree path depth = (r, None)"
  shows "TotalStr r = FormatSize (TotalSize r)
         \<and> (\<exists>items. Items r = Some items \<and> every_level strings_agree items)"
proof -
  have "TotalStr r = FormatSize (TotalSize r) \<and> (\<exists>items. Items r = Some items)"
    using assms
  proof (cases rule: Analyze_success_cases)
    case (plain info)
    from Analyze_file[OF plain, of sched depth] assms show ?thesis by auto
  next
    case (listed info entries)
    from Analyze_dir[OF listed, of sched depth] assms show ?thesis by auto
  qed
  then obtain items where t: "TotalStr r = FormatSize (TotalSize r)" and it: "Items r = Some items"
    by blast
  have "every_level strings_agree items"
    using _ _ assms it
  proof (rule Analyze_every_level)
    show "strings_agree (sort_Slice larger (map (entry_item h p d) es))" for h p d es
      by (rule strings_agree_sort_Slice)
    show "strings_agree [DirInfo name p n (FormatSize n) False None]" for name p n
      by (simp add: strings_agree_def)
  qed
  with t it show ?thesis by simp
qed

theorem Analyze_strings_agree_witness:
  "snd (AnalyzeDiskUsage plain_host [0, 1] sample_tree ''/r'' 2) = None
   \<and> TotalStr (fst (AnalyzeDiskUsage plain_host [0, 1] sample_tree ''/r'' 2)) = ''3.51 KB''
   \<and> FormatSize (TotalSize (fst (AnalyzeDiskUsage plain_host [0, 1] sample_tree ''/r'' 2))) = ''3.51 KB''
   \<and> every_level strings_agree
         (the (Items (fst (AnalyzeDiskUsage plain_host [0, 1] sample_tree ''/r'' 2))))"
proof -
  let ?A = "AnalyzeDiskUsage plain_host [0, 1] sample_tree ''/r'' 2"
  have n: "snd ?A = None" by code_simp
  have s: "TotalStr (fst ?A) = ''3.51 KB''" by code_simp
  have a: "?A = (fst ?A, None)" using n by (simp add: prod_eq_iff)
  from Analyze_strings_agree[OF a] n s show ?thesis by auto
qed

text \<open>The claim as stated, for every result, fails on an error result: its total is 0
  and its total string is empty, while 0 formats as "0 B".\<close>

theorem Analyze_strings_agree_counterexample:
  "snd (AnalyzeDiskUsage plain_host [] (NoStat False ''no such file or directory'') ''/gone'' 1)
     = Some (PathError ''stat'' ''/gone'' ''no such file or directory'')
   \<and> TotalStr (fst (AnalyzeDiskUsage plain_host [] (NoStat False ''no such file or directory'')
         ''/gone'' 1)) = []
   \<and> FormatSize (TotalSize (fst (AnalyzeDiskUsage plain_host []
         (NoStat False ''no such file or directory'') ''/gone'' 1))) = ''0 B''"
  by code_simp

text \<open>
  C2 (confirmed). Two successful calls on the same tree, with any two depths and any two
  lock orders, give the same total and the same sequence of item sizes; cut at the
  smaller depth they hold the same entries (the same lists when the lock orders agree).
  Depth only decides which children lists are populated. The size of every entry,
  expanded or not, is the sum of the sizes of all files transitively under it, where
  the files are the \<open>File\<close> nodes of the tree, at any depth below the entry.
\<close>

theorem depth_changes_detail_only:
  assumes a1: "AnalyzeDiskUsage h s1 tree path d1 = (r1, None)"
    and a2: "AnalyzeDiskUsage h s2 tree path d2 = (r2, None)"
  shows "TotalSize r1 = TotalSize r2 \<and>
    (\<exists>i1 i2. Items r1 = Some i1 \<and> Items r2 = Some i2
       \<and> map Size i1 = map Size i2
       \<and> mset (map (cut (min d1 d2)) i1) = mset (map (cut (min d1 d2)) i2)
       \<and> (s1 = s2 \<longrightarrow> map (cut (min d1 d2)) i1 = map (cut (min d1 d2)) i2)
       \<and> (\<forall>entries. ReadDir (Clean h path) tree = Inr entries \<longrightarrow>
             list_all (sized_from entries) i1))"
  using a1
proof (cases rule: Analyze_success_cases)
  case (plain info)
  obtain n where "tree = File n" using Stat_cases(2)[OF plain] by blast
  then show ?thesis
    using Analyze_file[OF plain, of s1 d1] Analyze_file[OF plain, of s2 d2] a1 a2 by auto
next
  case (listed info es)
  let ?rp = "Clean h path"
  let ?m = "min d1 d2"
  let ?i1 = "sort_Slice larger (map (entry_item h ?rp d1) (lock_order s1 es))"
  let ?i2 = "sort_Slice larger (map (entry_item h ?rp d2) (lock_order s2 es))"
  have i1: "Items r1 = Some ?i1" using Analyze_dir[OF listed, of s1 d1] a1 by auto
  have i2: "Items r2 = Some ?i2" using Analyze_dir[OF listed, of s2 d2] a2 by auto
  have "TotalSize r1 = sum_list (file_sizes tree)" "TotalSize r2 = sum_list (file_sizes tree)"
    using Analyze_dir_total[OF listed, of s1 d1] Analyze_dir_total[OF listed, of s2 d2] a1 a2
    by simp_all
  then have tot: "TotalSize r1 = TotalSize r2" by simp
  have ms: "mset (map Size (sort_Slice larger (map (entry_item h ?rp d) (lock_order s es))))
          = image_mset (\<lambda>e. sum_list (file_sizes (snd e))) (mset es)" for d s
    by (simp add: mset_sort_Slice mset_lock_order multiset.map_comp comp_def Size_entry_item)
  have sz: "map Size ?i1 = map Size ?i2"
  proof (rule sizes_unique)
    show "mset (map Size ?i1) = mset (map Size ?i2)" unfolding ms ..
  qed (rule sorted_sort_Slice_larger)+
  have c1: "map (cut ?m) ?i1 = sort_Slice larger (map (entry_item h ?rp ?m) (lock_order s1 es))"
    using cut_sorted_items[of ?m h ?rp d1 "lock_order s1 es"] by (simp add: min.absorb1)
  have c2: "map (cut ?m) ?i2 = sort_Slice larger (map (entry_item h ?rp ?m) (lock_order s2 es))"
    using cut_sorted_items[of ?m h ?rp d2 "lock_order s2 es"] by (simp add: min.absorb1)
  have mc: "mset (map (cut ?m) ?i1) = mset (map (cut ?m) ?i2)"
    unfolding c1 c2 by (simp add: mset_sort_Slice mset_lock_order)
  have eq: "s1 = s2 \<longrightarrow> map (cut ?m) ?i1 = map (cut ?m) ?i2"
    unfolding c1 c2 by simp
  have sf: "list_all (sized_from es) ?i1"
    using sized_from_entry_item[of _ es h ?rp d1] mset_lock_order[of s1 es]
    by (auto simp: list_all_iff set_sort_Slice dest: mset_eq_setD)
  show ?thesis using tot i1 i2 sz mc eq sf listed(3) by simp
qed

theorem depth_changes_detail_only_witness:
  "snd (AnalyzeDiskUsage plain_host [2, 0] sample_tree ''/r'' 1) = None
   \<and> snd (AnalyzeDiskUsage plain_host [1] sample_tree ''/r'' 3) = None
   \<and> TotalSize (fst (AnalyzeDiskUsage plain_host [2, 0] sample_tree ''/r'' 1)) = 3601
   \<and> TotalSize (fst (AnalyzeDiskUsage plain_host [1] sample_tree ''/r'' 3)) = 3601
   \<and> map Size (the (Items (fst (AnalyzeDiskUsage plain_host [2, 0] sample_tree ''/r'' 1))))
       = map Size (the (Items (fst (AnalyzeDiskUsage plain_host [1] sample_tree ''/r'' 3))))
   \<and> the (Items (fst (AnalyzeDiskUsage plain_host [2, 0] sample_tree ''/r'' 1)))
       = map (cut 1) (the (Items (fst (AnalyzeDiskUsage plain_host [1] sample_tree ''/r'' 3))))"
proof -
  let ?A1 = "AnalyzeDiskUsage plain_host [2, 0] sample_tree ''/r'' 1"
  let ?A3 = "AnalyzeDiskUsage plain_host [1] sample_tree ''/r'' 3"
  have n1: "snd ?A1 = None" by code_simp
  have n3: "snd ?A3 = None" by code_simp
  have t1: "TotalSize (fst ?A1) = 3601" by code_simp
  have c: "the (Items (fst ?A1)) = map (cut 1) (the (Items (fst ?A3)))" by code_simp
  have a1: "?A1 = (fst ?A1, None)" using n1 by (simp add: prod_eq_iff)
  have a3: "?A3 = (fst ?A3, None)" using n3 by (simp add: prod_eq_iff)
  from depth_changes_detail_only[OF a1 a3] n1 n3 t1 c show ?thesis by auto
qed

text \<open>
  C5 (confirmed). Sizing never fails: \<^verbatim>\<open>GetDirSize\<close> returns no error and the sum of the
  files it can reach. An entry that cannot be listed or stat'ed counts zero, and a
  listing that holds one is sized as if the entry were absent: the walk goes on over the
  entries before and after it. A root that is a listable directory always gives a
  successful result, whose total is the sum of the files that can be reached.
\<close>

theorem unreadable_entries_count_zero:
  "GetDirSize h p nd = (sum_list (file_sizes nd), None)
   \<and> GetDirSize h p (NoList e) = (0, None)
   \<and> GetDirSize h p (NoStat d e) = (0, None)
   \<and> (bad = NoList e \<or> bad = NoStat d e \<longrightarrow>
        GetDirSize h p (Dir (before @ [(name, bad)] @ after)) = GetDirSize h p (Dir (before @ after)))
   \<and> (Stat h (Clean h path) tree = Inr info \<and> info_IsDir info
        \<and> ReadDir (Clean h path) tree = Inr entries \<longrightarrow>
        (\<exists>r. AnalyzeDiskUsage h sched tree path depth = (r, None) \<and> Error r = ''''
           \<and> TotalSize r = sum_list (file_sizes tree)))"
proof (intro conjI impI)
  show "GetDirSize h p nd = (sum_list (file_sizes nd), None)" by (rule GetDirSize_eq)
  show "GetDirSize h p (NoList e) = (0, None)" by (simp add: GetDirSize_eq)
  show "GetDirSize h p (NoStat d e) = (0, None)" by (simp add: GetDirSize_eq)
next
  assume "bad = NoList e \<or> bad = NoStat d e"
  then have "file_sizes bad = []" by auto
  then show "GetDirSize h p (Dir (before @ [(name, bad)] @ after)) = GetDirSize h p (Dir (before @ after))"
    by (simp add: GetDirSize_eq file_sizes_in_append)
next
  assume a: "Stat h (Clean h path) tree = Inr info \<and> info_IsDir info
        \<and> ReadDir (Clean h path) tree = Inr entries"
  then have s: "Stat h (Clean h path) tree = Inr info" and d: "info_IsDir info"
    and r: "ReadDir (Clean h path) tree = Inr entries" by simp_all
  have "TotalSize (fst (AnalyzeDiskUsage h sched tree path depth)) = sum_list (file_sizes tree)"
    using s d r by (rule Analyze_dir_total)
  then show "\<exists>r. AnalyzeDiskUsage h sched tree path depth = (r, None) \<and> Error r = ''''
           \<and> TotalSize r = sum_list (file_sizes tree)"
    using Analyze_dir[OF s d r, of sched depth] by simp
qed

theorem unreadable_entries_count_zero_witness:
  "Stat plain_host ''/r'' sample_tree = Inr \<lparr>info_Name = ''r'', info_Size = 0, info_IsDir = True\<rparr>
   \<and> snd (AnalyzeDiskUsage plain_host [] sample_tree ''/r'' 1) = None
   \<and> TotalSize (fst (AnalyzeDiskUsage plain_host [] sample_tree ''/r'' 1)) = 10 + (2048 + 7) + 1536
   \<and> GetDirSize plain_host ''/r/b''
        (Dir ([(''c'', File 2048), (''d'', Dir [(''e'', File 7)])]
              @ [(''x'', NoList ''permission denied'')]
              @ [(''y'', NoStat False ''no such file or directory'')]))
      = (2055, None)"
proof -
  obtain entries where t: "sample_tree = Dir entries" by (simp add: sample_tree_def)
  have s: "Stat plain_host (Clean plain_host ''/r'') sample_tree
             = Inr \<lparr>info_Name = ''r'', info_Size = 0, info_IsDir = True\<rparr>"
    by (simp add: t Stat_def plain_host_def)
  have r: "ReadDir (Clean plain_host ''/r'') sample_tree = Inr entries" by (simp add: t)
  have f: "sum_list (file_sizes sample_tree) = 10 + (2048 + 7) + 1536"
    by (simp add: sample_tree_def)
  have g: "GetDirSize plain_host ''/r/b''
        (Dir ([(''c'', File 2048), (''d'', Dir [(''e'', File 7)])]
              @ [(''x'', NoList ''permission denied'')]
              @ [(''y'', NoStat False ''no such file or directory'')]))
      = GetDirSize plain_host ''/r/b''
        (Dir ([(''c'', File 2048), (''d'', Dir [(''e'', File 7)])]
              @ [(''y'', NoStat False ''no such file or directory'')]))"
    using unreadable_entries_count_zero[of plain_host "''/r/b''" "File 0" "''permission denied''" False
      "NoList ''permission denied''" "[(''c'', File 2048), (''d'', Dir [(''e'', File 7)])]" "''x''"
      "[(''y'', NoStat False ''no such file or directory'')]"]
    by simp
  have g2: "GetDirSize plain_host ''/r/b''
        (Dir ([(''c'', File 2048), (''d'', Dir [(''e'', File 7)])]
              @ [(''y'', NoStat False ''no such file or directory'')])) = (2055, None)"
    using unreadable_entries_count_zero[of plain_host "''/r/b''"
       "Dir ([(''c'', File 2048), (''d'', Dir [(''e'', File 7)])]
              @ [(''y'', NoStat False ''no such file or directory'')])"]
    by simp
  from unreadable_entries_count_zero[of plain_host "''/r/b''" "File 0" "''e''" False "File 0" "[]" "''n''" "[]"
      "''/r''" sample_tree "\<lparr>info_Name = ''r'', info_Size = 0, info_IsDir = True\<rparr>" entries "[]" 1]
    s r f g g2
  show ?thesis by (auto simp: plain_host_def)
qed

text \<open>
  C9 (confirmed). In every state that a call can reach, the goroutines that hold a slot
  of the semaphore, those sizing an entry among them, are as many as the semaphore
  holds values, at most 10. No more goroutines are started than the directory has
  entries, and all of them are started once the loop is left. When the call has
  returned from the wait, every goroutine has finished, and each has appended once.
\<close>

theorem bounded_fan_out:
  assumes "exec n start events = Some s"
  shows "length (filter holding (tasks s)) = semaphore s \<and> semaphore s \<le> 10
    \<and> length (tasks s) \<le> n
    \<and> (main s = Waiting \<or> main s = Returned \<longrightarrow> length (tasks s) = n)
    \<and> (main s = Returned \<longrightarrow>
          list_all (\<lambda>p. p = Finished) (tasks s) \<and> mset (appended s) = mset [0..<n])"
proof -
  have i: "run_inv n s" using inv_start assms by (rule inv_exec)
  have len: "length (tasks s) \<le> n"
    using invD(1)[OF i] by (cases "main s") simp_all
  have w: "main s = Waiting \<or> main s = Returned \<longrightarrow> length (tasks s) = n"
    using invD(1)[OF i] by (cases "main s") simp_all
  have sem: "length (filter holding (tasks s)) = semaphore s" using invD(2)[OF i] by simp
  have cap: "semaphore s \<le> 10" by (rule invD(3)[OF i])
  have fin: "main s = Returned \<longrightarrow> list_all (\<lambda>p. p = Finished) (tasks s)"
    by (rule invD(5)[OF i])
  have perm: "main s = Returned \<longrightarrow> mset (appended s) = mset [0..<n]"
  proof
    assume r: "main s = Returned"
    have f: "\<And>k. k < length (tasks s) \<Longrightarrow> tasks s ! k = Finished"
      using fin r by (simp add: list_all_length)
    have l: "length (tasks s) = n" using w r by simp
    have "k \<in> set (appended s) \<longleftrightarrow> k < n" for k
    proof -
      have "k \<in> set (appended s) \<longleftrightarrow> k < length (tasks s) \<and> has_appended (tasks s ! k)"
        by (simp add: invD(7)[OF i])
      also have "\<dots> \<longleftrightarrow> k < length (tasks s)"
        using f[of k] by (cases "k < length (tasks s)") (simp_all add: has_appended_def)
      finally show ?thesis by (simp add: l)
    qed
    then have "set (appended s) = set [0..<n]" by (simp add: set_eq_iff)
    moreover have "distinct [0..<n]" by simp
    ultimately show "mset (appended s) = mset [0..<n]"
      using invD(6)[OF i] set_eq_iff_mset_eq_distinct by blast
  qed
  from sem cap len w fin perm show ?thesis by blast
qed

theorem bounded_fan_out_witness:
  "exec 2 start [Launch, Launch, Acquire 1, Launch, Append 1, Acquire 0, Release 1, Append 0,
       Done 1, Release 0, Done 0, Wait]
     = Some \<lparr>main = Returned, tasks = [Finished, Finished], semaphore = 0, wg = 0,
          appended = [1, 0]\<rparr>
   \<and> mset [1, 0] = mset [0..<2]
   \<and> exec 11 start [Launch, Launch, Launch, Launch, Launch, Launch, Launch, Launch, Launch,
       Launch, Launch, Launch, Acquire 0, Acquire 1, Acquire 2, Acquire 3, Acquire 4, Acquire 5,
       Acquire 6, Acquire 7, Acquire 8, Acquire 9] = Some full_house
   \<and> length (filter holding (tasks full_house)) = 10
   \<and> fire 11 full_house (Acquire 10) = None"
proof -
  have a: "exec 2 start [Launch, Launch, Acquire 1, Launch, Append 1, Acquire 0, Release 1, Append 0,
       Done 1, Release 0, Done 0, Wait]
     = Some \<lparr>main = Returned, tasks = [Finished, Finished], semaphore = 0, wg = 0,
          appended = [1, 0]\<rparr>"
    by code_simp
  have b: "exec 11 start [Launch, Launch, Launch, Launch, Launch, Launch, Launch, Launch, Launch,
       Launch, Launch, Launch, Acquire 0, Acquire 1, Acquire 2, Acquire 3, Acquire 4, Acquire 5,
       Acquire 6, Acquire 7, Acquire 8, Acquire 9] = Some full_house"
    by code_simp
  have c: "fire 11 full_house (Acquire 10) = None" by code_simp
  have s: "semaphore full_house = 10" by (simp add: full_house_def)
  have m: "mset [1, 0] = mset [0..<2]"
    using bounded_fan_out[OF a] by simp
  have h: "length (filter holding (tasks full_house)) = 10"
    using bounded_fan_out[OF b] s by simp
  from a m b h c show ?thesis by blast
qed

end
